theory Spec2Isabelle
  imports Complex_Main "HOL-Library.Code_Target_Numeral"
begin

section \<open>JavaScript values handled by the dashboard client\<close>

text \<open>
  The client (\<^verbatim>\<open>frontend/scripts/app.js\<close>) receives the agent's result through
  \<^verbatim>\<open>res.json()\<close>, so a result is a tree of JSON values. \<^verbatim>\<open>JUndefined\<close> is what
  reading an absent property yields and \<^verbatim>\<open>JNaN\<close> what \<^verbatim>\<open>parseInt\<close> yields on text
  without digits; \<open>JInfinity negative\<close> is the infinity of that sign, which
  \<^verbatim>\<open>parseInt\<close> and \<^verbatim>\<open>JSON.parse\<close> yield on numerals beyond the range of a double. An object is the list of its own properties in \<^verbatim>\<open>for ... in\<close>
  order (a JavaScript object holds each key once); an array is the list of its
  elements. A string is the list of its UTF-16 code units, as numbers; \<open>lit\<close>
  turns an ASCII string literal into such a list. A finite number is the real
  number it stands for (every finite double is one, and the two zeros are not told
  apart); of a number the client only asks whether it is zero.
\<close>

type_synonym js_string = "nat list"

definition lit :: "string \<Rightarrow> js_string" where
  "lit s = map of_char s"

datatype jsval =
    JUndefined
  | JNull
  | JBool bool
  | JNum real
  | JNaN
  | JInfinity bool
  | JStr js_string
  | JArr "jsval list"
  | JObj "(js_string \<times> jsval) list"

text \<open>
  What the handlers can catch: the TypeError of reading a property of \<^verbatim>\<open>null\<close> or
  \<^verbatim>\<open>undefined\<close> or of calling what is not a function, and the error, with its
  message, that \<^verbatim>\<open>fetch\<close> or \<^verbatim>\<open>res.json()\<close> rejects with.
\<close>

datatype js_error = TypeError | FetchError js_string

text \<open>\<^verbatim>\<open>if (v)\<close>: the values that count as true.\<close>

fun truthy :: "jsval \<Rightarrow> bool" where
  "truthy JUndefined = False"
| "truthy JNull = False"
| "truthy (JBool b) = b"
| "truthy (JNum n) = (n \<noteq> 0)"
| "truthy JNaN = False"
| "truthy (JInfinity negative) = True"
| "truthy (JStr s) = (s \<noteq> [])"
| "truthy (JArr xs) = True"
| "truthy (JObj kvs) = True"

fun typeof :: "jsval \<Rightarrow> js_string" where
  "typeof JUndefined = lit ''undefined''"
| "typeof JNull = lit ''object''"
| "typeof (JBool b) = lit ''boolean''"
| "typeof (JNum n) = lit ''number''"
| "typeof JNaN = lit ''number''"
| "typeof (JInfinity negative) = lit ''number''"
| "typeof (JStr s) = lit ''string''"
| "typeof (JArr xs) = lit ''object''"
| "typeof (JObj kvs) = lit ''object''"

text \<open>
  \<^verbatim>\<open>v.k\<close> for the property names the client reads (\<^verbatim>\<open>pdf\<close>, \<^verbatim>\<open>output_file\<close>,
  \<^verbatim>\<open>image_path\<close>, \<^verbatim>\<open>success\<close>, \<^verbatim>\<open>detail\<close>, \<^verbatim>\<open>result\<close>): a TypeError on
  \<^verbatim>\<open>null\<close> and \<^verbatim>\<open>undefined\<close>, the bound value on an object that has the key,
  \<^verbatim>\<open>undefined\<close> everywhere else (none of these names is an array index or a
  built-in property of arrays, strings, numbers or booleans).
\<close>

fun getProp :: "jsval \<Rightarrow> js_string \<Rightarrow> js_error + jsval" where
  "getProp JUndefined k = Inl TypeError"
| "getProp JNull k = Inl TypeError"
| "getProp (JObj kvs) k = Inr (case map_of kvs k of None \<Rightarrow> JUndefined | Some v \<Rightarrow> v)"
| "getProp v k = Inr JUndefined"

text \<open>The values \<^verbatim>\<open>obj[key]\<close> that \<^verbatim>\<open>for (const key in obj)\<close> visits, in order.\<close>

fun forInValues :: "jsval \<Rightarrow> jsval list" where
  "forInValues (JObj kvs) = map snd kvs"
| "forInValues (JArr xs) = xs"
| "forInValues v = []"

section \<open>The artifact resolver\<close>

text \<open>
  \<^verbatim>\<open>
  function findOutputFile(obj) {
      if (!obj || typeof obj !== 'object') return null;
      if (obj.pdf) return obj.pdf;
      if (obj.output_file) return obj.output_file;
      if (obj.image_path) return obj.image_path;
      for (const key in obj) {
          const found = findOutputFile(obj[key]);
          if (found) return found;
      }
      return null;
  }
  \<close>
  \<open>findOutputFile_loop\<close> is the \<^verbatim>\<open>for\<close> loop over the remaining properties.
\<close>

function findOutputFile :: "jsval \<Rightarrow> js_error + jsval"
  and findOutputFile_loop :: "jsval list \<Rightarrow> js_error + jsval"
where
  "findOutputFile obj =
    (if \<not> truthy obj \<or> typeof obj \<noteq> lit ''object'' then Inr JNull
     else case getProp obj (lit ''pdf'') of Inl e \<Rightarrow> Inl e | Inr pdf \<Rightarrow>
       if truthy pdf then Inr pdf
       else case getProp obj (lit ''output_file'') of Inl e \<Rightarrow> Inl e | Inr output_file \<Rightarrow>
         if truthy output_file then Inr output_file
         else case getProp obj (lit ''image_path'') of Inl e \<Rightarrow> Inl e | Inr image_path \<Rightarrow>
           if truthy image_path then Inr image_path
           else findOutputFile_loop (forInValues obj))"
| "findOutputFile_loop [] = Inr JNull"
| "findOutputFile_loop (x # xs) =
    (case findOutputFile x of Inl e \<Rightarrow> Inl e | Inr found \<Rightarrow>
       if truthy found then Inr found else findOutputFile_loop xs)"
  by pat_completeness auto
termination
proof (relation "measure (\<lambda>a. case a of Inl obj \<Rightarrow> 2 * size obj
                                           | Inr xs \<Rightarrow> 2 * size_list size xs + 1)")
  fix obj :: jsval
  assume guard: "\<not> (\<not> truthy obj \<or> typeof obj \<noteq> lit ''object'')"
  have "size_list size (forInValues obj) < size obj"
  proof (cases obj)
    case (JObj kvs)
    have "size_list size (map snd kvs) \<le> size_list (size_prod (\<lambda>_. 0) size) kvs"
      by (induction kvs) auto
    with JObj show ?thesis by simp
  qed (use guard in \<open>simp_all add: lit_def\<close>)
  then show "(Inr (forInValues obj), Inl obj)
      \<in> measure (\<lambda>a. case a of Inl obj \<Rightarrow> 2 * size obj
                               | Inr xs \<Rightarrow> 2 * size_list size xs + 1)"
    by simp
qed simp_all

text \<open>
  The same recursion with a budget of stack frames: each call of
  \<^verbatim>\<open>findOutputFile\<close> takes one frame, and \<open>None\<close> means the budget ran out before
  the call returned.
\<close>

fun findOutputFile_fuel :: "nat \<Rightarrow> jsval \<Rightarrow> (js_error + jsval) option"
  and findOutputFile_loop_fuel :: "nat \<Rightarrow> jsval list \<Rightarrow> (js_error + jsval) option"
where
  "findOutputFile_fuel 0 obj = None"
| "findOutputFile_fuel (Suc n) obj =
    (if \<not> truthy obj \<or> typeof obj \<noteq> lit ''object'' then Some (Inr JNull)
     else case getProp obj (lit ''pdf'') of Inl e \<Rightarrow> Some (Inl e) | Inr pdf \<Rightarrow>
       if truthy pdf then Some (Inr pdf)
       else case getProp obj (lit ''output_file'') of Inl e \<Rightarrow> Some (Inl e) | Inr output_file \<Rightarrow>
         if truthy output_file then Some (Inr output_file)
         else case getProp obj (lit ''image_path'') of Inl e \<Rightarrow> Some (Inl e) | Inr image_path \<Rightarrow>
           if truthy image_path then Some (Inr image_path)
           else findOutputFile_loop_fuel n (forInValues obj))"
| "findOutputFile_loop_fuel n [] = Some (Inr JNull)"
| "findOutputFile_loop_fuel n (x # xs) =
    (case findOutputFile_fuel n x of
       None \<Rightarrow> None
     | Some (Inl e) \<Rightarrow> Some (Inl e)
     | Some (Inr found) \<Rightarrow>
         if truthy found then Some (Inr found) else findOutputFile_loop_fuel n xs)"

subsection \<open>Vocabulary for statements about result structures\<close>

definition artifactKeys :: "js_string list" where
  "artifactKeys = [lit ''pdf'', lit ''output_file'', lit ''image_path'']"

text \<open>Every key/value binding of every mapping in the structure, at any depth.\<close>

fun bindings :: "jsval \<Rightarrow> (js_string \<times> jsval) list"
  and bindings_props :: "(js_string \<times> jsval) list \<Rightarrow> (js_string \<times> jsval) list"
  and bindings_elems :: "jsval list \<Rightarrow> (js_string \<times> jsval) list"
where
  "bindings (JObj kvs) = bindings_props kvs"
| "bindings (JArr xs) = bindings_elems xs"
| "bindings v = []"
| "bindings_props [] = []"
| "bindings_props (kv # kvs) = (fst kv, snd kv) # bindings (snd kv) @ bindings_props kvs"
| "bindings_elems [] = []"
| "bindings_elems (x # xs) = bindings x @ bindings_elems xs"

text \<open>
  The order of the search, as the specification words it: at each mapping the keys
  \<^verbatim>\<open>pdf\<close>, \<^verbatim>\<open>output_file\<close>, \<^verbatim>\<open>image_path\<close> in that order, before the
  children; then the children in their order, each searched the same way
  (pre-order). \<open>ownArtifacts\<close> lists the artifact bindings of one node,
  \<open>searchOrder\<close> those of the whole structure, and \<open>firstTruthy\<close> picks the value
  of the first binding whose value counts as true, \<^verbatim>\<open>null\<close> when there is none.
\<close>

definition ownArtifacts :: "(js_string \<times> jsval) list \<Rightarrow> (js_string \<times> jsval) list" where
  "ownArtifacts kvs =
     concat (map (\<lambda>k. case map_of kvs k of None \<Rightarrow> [] | Some x \<Rightarrow> [(k, x)]) artifactKeys)"

fun searchOrder :: "jsval \<Rightarrow> (js_string \<times> jsval) list"
  and searchOrder_props :: "(js_string \<times> jsval) list \<Rightarrow> (js_string \<times> jsval) list"
  and searchOrder_elems :: "jsval list \<Rightarrow> (js_string \<times> jsval) list"
where
  "searchOrder (JObj kvs) = ownArtifacts kvs @ searchOrder_props kvs"
| "searchOrder (JArr xs) = searchOrder_elems xs"
| "searchOrder v = []"
| "searchOrder_props [] = []"
| "searchOrder_props (kv # kvs) = searchOrder (snd kv) @ searchOrder_props kvs"
| "searchOrder_elems [] = []"
| "searchOrder_elems (x # xs) = searchOrder x @ searchOrder_elems xs"

definition firstTruthy :: "(js_string \<times> jsval) list \<Rightarrow> jsval" where
  "firstTruthy kvs =
     (case filter (\<lambda>kv. truthy (snd kv)) kvs of [] \<Rightarrow> JNull | kv # rest \<Rightarrow> snd kv)"

fun isMappingOrSequence :: "jsval \<Rightarrow> bool" where
  "isMappingOrSequence (JObj kvs) = True"
| "isMappingOrSequence (JArr xs) = True"
| "isMappingOrSequence v = False"

text \<open>An artifact key bound to a value that counts as false.\<close>

definition falsyArtifact :: "js_string \<times> jsval \<Rightarrow> bool" where
  "falsyArtifact kv = (fst kv \<in> set artifactKeys \<and> \<not> truthy (snd kv))"

text \<open>The structure with every such binding erased, at every depth.\<close>

fun dropFalsyArtifacts :: "jsval \<Rightarrow> jsval"
  and dropFalsyArtifacts_props :: "(js_string \<times> jsval) list \<Rightarrow> (js_string \<times> jsval) list"
  and dropFalsyArtifacts_elems :: "jsval list \<Rightarrow> jsval list"
where
  "dropFalsyArtifacts (JObj kvs) = JObj (dropFalsyArtifacts_props kvs)"
| "dropFalsyArtifacts (JArr xs) = JArr (dropFalsyArtifacts_elems xs)"
| "dropFalsyArtifacts v = v"
| "dropFalsyArtifacts_props [] = []"
| "dropFalsyArtifacts_props (kv # kvs) =
    (if falsyArtifact kv then dropFalsyArtifacts_props kvs
     else (fst kv, dropFalsyArtifacts (snd kv)) # dropFalsyArtifacts_props kvs)"
| "dropFalsyArtifacts_elems [] = []"
| "dropFalsyArtifacts_elems (x # xs) = dropFalsyArtifacts x # dropFalsyArtifacts_elems xs"

text \<open>Every mapping of the structure holds each key once, as a JavaScript object does.\<close>

fun distinctKeys :: "jsval \<Rightarrow> bool"
  and distinctKeys_props :: "(js_string \<times> jsval) list \<Rightarrow> bool"
  and distinctKeys_elems :: "jsval list \<Rightarrow> bool"
where
  "distinctKeys (JObj kvs) = (distinct (map fst kvs) \<and> distinctKeys_props kvs)"
| "distinctKeys (JArr xs) = distinctKeys_elems xs"
| "distinctKeys v = True"
| "distinctKeys_props [] = True"
| "distinctKeys_props (kv # kvs) = (distinctKeys (snd kv) \<and> distinctKeys_props kvs)"
| "distinctKeys_elems [] = True"
| "distinctKeys_elems (x # xs) = (distinctKeys x \<and> distinctKeys_elems xs)"

section \<open>Strings\<close>

text \<open>
  \<^verbatim>\<open>String.prototype.trim\<close> strips white space and line terminators from both
  ends: tab, line feed, vertical tab, form feed, carriage return, space, no-break
  space, the other space separators of Unicode (U+1680, U+2000 to U+200A, U+202F,
  U+205F, U+3000), the line and paragraph separators U+2028 and U+2029, and the
  byte order mark U+FEFF.
\<close>

definition isWhiteSpace :: "nat \<Rightarrow> bool" where
  "isWhiteSpace c =
     (c \<in> set [0x09, 0x0A, 0x0B, 0x0C, 0x0D, 0x20, 0xA0, 0x1680, 0x2028, 0x2029, 0x202F,
               0x205F, 0x3000, 0xFEFF]
      \<or> (0x2000 \<le> c \<and> c \<le> 0x200A))"

definition trim :: "js_string \<Rightarrow> js_string" where
  "trim s = rev (dropWhile isWhiteSpace (rev (dropWhile isWhiteSpace s)))"

text \<open>\<^verbatim>\<open>file.split(/[/\\]/)\<close>: the pieces between slashes and backslashes.\<close>

definition isSeparator :: "nat \<Rightarrow> bool" where
  "isSeparator c = (c = 0x2F \<or> c = 0x5C)"

fun split :: "js_string \<Rightarrow> js_string list" where
  "split [] = [[]]"
| "split (c # cs) =
    (if isSeparator c then [] # split cs
     else case split cs of [] \<Rightarrow> [[c]] | seg # segs \<Rightarrow> (c # seg) # segs)"

text \<open>\<^verbatim>\<open>Array.prototype.pop\<close>: the last element, \<^verbatim>\<open>undefined\<close> on an empty array.\<close>

definition pop :: "'a list \<Rightarrow> 'a option" where
  "pop xs = (if xs = [] then None else Some (last xs))"

text \<open>
  \<^verbatim>\<open>parseInt(s)\<close> without a radix: leading white space is skipped, then an
  optional sign, then \<^verbatim>\<open>0x\<close> or \<^verbatim>\<open>0X\<close> selects radix 16 (radix 10 otherwise); the
  longest run of digits of that radix is read and everything after it is ignored.
  No digit at all gives \<^verbatim>\<open>NaN\<close>. Otherwise the result is the Number value of
  the integer the digits denote: the nearest double, ties going to the even
  significand, and the infinity of the sign when that rounding reaches \<open>2^1024\<close>.
  (For more than 20 decimal digits the standard lets an engine read the digits
  after the 20th as zeros; the digits are taken as written here.)
\<close>

fun bitLength :: "nat \<Rightarrow> nat" where
  "bitLength n = (if n = 0 then 0 else Suc (bitLength (n div 2)))"

text \<open>The nearest natural number with at most 53 significant bits, ties to even.\<close>

definition roundToDouble :: "nat \<Rightarrow> nat" where
  "roundToDouble a =
     (let e = bitLength a - 53;
          q = a div 2 ^ e;
          r = a mod 2 ^ e
      in if 2 * r < 2 ^ e \<or> (2 * r = 2 ^ e \<and> even q) then q * 2 ^ e else (q + 1) * 2 ^ e)"

definition toNumber :: "bool \<Rightarrow> nat \<Rightarrow> jsval" where
  "toNumber negative a =
     (let d = roundToDouble a
      in if 2 ^ 1024 \<le> d then JInfinity negative
         else JNum (if negative then - real d else real d))"

definition digitValue :: "nat \<Rightarrow> nat" where
  "digitValue c =
     (if 0x30 \<le> c \<and> c \<le> 0x39 then c - 0x30
      else if 0x61 \<le> c \<and> c \<le> 0x66 then c - 0x61 + 10
      else if 0x41 \<le> c \<and> c \<le> 0x46 then c - 0x41 + 10
      else 36)"

text \<open>The sign, the radix and the run of digits that \<^verbatim>\<open>parseInt\<close> reads.\<close>

definition signRadixDigits :: "js_string \<Rightarrow> bool \<times> nat \<times> js_string" where
  "signRadixDigits s =
     (let s1 = dropWhile isWhiteSpace s;
          negative = (take 1 s1 = lit ''-'');
          s2 = (if take 1 s1 = lit ''-'' \<or> take 1 s1 = lit ''+'' then drop 1 s1 else s1);
          hex = (take 2 s2 = lit ''0x'' \<or> take 2 s2 = lit ''0X'');
          radix = (if hex then 16 else 10);
          s3 = (if hex then drop 2 s2 else s2)
      in (negative, radix, takeWhile (\<lambda>c. digitValue c < radix) s3))"

definition parseInt :: "js_string \<Rightarrow> jsval" where
  "parseInt s =
     (case signRadixDigits s of
        (negative, radix, z) \<Rightarrow>
          if z = [] then JNaN
          else toNumber negative (foldl (\<lambda>acc c. acc * radix + digitValue c) 0 z))"

section \<open>The page and the client state\<close>

text \<open>
  One record holds the script's \<^verbatim>\<open>state\<close> object, the parts of the page that
  the submit handler, the progress simulator and the renderer read or write, and
  the interval timers that are registered with the browser. (The title,
  description, icon, category, label and placeholder that \<^verbatim>\<open>openAgent\<close> writes
  are read by no handler and are not part of the record.) The page is taken to contain every element that \<^verbatim>\<open>elements\<close> looks
  up, so the guards \<^verbatim>\<open>if (elements.x)\<close> are true.
  \<^item> \<open>intervals\<close> maps the handle of each active \<^verbatim>\<open>setInterval\<close> timer to the
    \<^verbatim>\<open>width\<close> variable its callback has captured; \<open>nextInterval\<close> is the handle
    the next \<^verbatim>\<open>setInterval\<close> returns.
  \<^item> \<open>barWidth\<close> is the number in front of the percent sign in
    \<^verbatim>\<open>progressBar.style.width\<close>.
  \<^item> \<open>progressVisible\<close> and \<open>resultVisible\<close> stand for \<^verbatim>\<open>display: block\<close> together
    with the class \<^verbatim>\<open>active\<close> on the progress container and the result area.
\<close>

record agent_descriptor =
  agent_id :: js_string
  agent_name :: js_string
  agent_description :: js_string

record form_el =
  el_name :: js_string
  el_type :: js_string
  el_value :: js_string

record request =
  agent :: js_string
  topic :: js_string
  options :: "js_string \<rightharpoonup> jsval"

record download_btn =
  href :: js_string
  download :: js_string
  btn_display :: js_string

text \<open>The two contents the script gives the submit button.\<close>

datatype submit_html = ExecuteAgent | Processing

text \<open>
  What \<^verbatim>\<open>showError\<close> is called with: \<^verbatim>\<open>data.detail || 'Execution failed'\<close>, or
  the \<^verbatim>\<open>message\<close> of a caught error.
\<close>

datatype error_msg = Text jsval | ErrorMessage js_error

text \<open>
  Contents of the result display: the JSON dump of a result, with or without the
  banner shown when \<^verbatim>\<open>result.pdf\<close> is true, or an error box.
\<close>

datatype result_html = Empty | ResultHtml bool jsval | ErrorHtml error_msg

record ui =
  agents :: "agent_descriptor list"
  currentAgent :: "agent_descriptor option"
  progressInterval :: "nat option"
  intervals :: "nat \<rightharpoonup> real"
  nextInterval :: nat
  modalActive :: bool
  inputValue :: js_string
  inputFocused :: bool
  formEls :: "form_el list"
  submitDisabled :: bool
  submitHtml :: submit_html
  progressVisible :: bool
  progressStatus :: js_string
  progressDetail :: js_string
  barWidth :: real
  resultVisible :: bool
  resultDisplay :: result_html
  downloadBtn :: download_btn

section \<open>The progress simulator\<close>

text \<open>
  \<^verbatim>\<open>
  let width = 0;
  const interval = setInterval(() => {
      if (width >= 90) clearInterval(interval);
      width += Math.random() * 10;
      if (elements.progressBar) elements.progressBar.style.width = Math.min(width, 90) + "%";
      if (elements.progressDetail) {
          const steps = [...];
          elements.progressDetail.textContent =
              steps[Math.floor((width / 100) * steps.length)] || 'Processing...';
      }
  }, 800);
  state.progressInterval = interval;
  \<close>
\<close>

definition startProgress :: "ui \<Rightarrow> ui" where
  "startProgress st =
     st\<lparr>progressVisible := True,
        resultVisible := False,
        progressStatus := lit ''Initializing Agents...'',
        barWidth := 0,
        intervals := (intervals st)(nextInterval st \<mapsto> 0),
        nextInterval := Suc (nextInterval st),
        progressInterval := Some (nextInterval st)\<rparr>"

definition steps :: "js_string list" where
  "steps = [lit ''Analyzing intent...'', lit ''Loading external tools...'',
            lit ''Generating solution...'', lit ''Formatting output...'']"

definition stepLabel :: "real \<Rightarrow> js_string" where
  "stepLabel width =
     (let i = \<lfloor>(width / 100) * real (length steps)\<rfloor>
      in if 0 \<le> i \<and> i < int (length steps) then steps ! nat i else lit ''Processing...'')"

text \<open>
  One run of the callback of timer \<open>t\<close>, with \<open>random\<close> the value of
  \<^verbatim>\<open>Math.random()\<close>. A timer that is not registered does not fire.
\<close>

definition tick :: "nat \<Rightarrow> real \<Rightarrow> ui \<Rightarrow> ui" where
  "tick t random st =
     (case intervals st t of
        None \<Rightarrow> st
      | Some width \<Rightarrow>
          let width' = width + random * 10
          in st\<lparr>intervals := (if width \<ge> 90 then (intervals st)(t := None)
                               else (intervals st)(t \<mapsto> width')),
                barWidth := min width' 90,
                progressDetail := stepLabel width'\<rparr>)"

text \<open>\<^verbatim>\<open>clearInterval(h)\<close>; \<^verbatim>\<open>null\<close> and unknown handles are ignored.\<close>

definition clearInterval :: "nat option \<Rightarrow> ui \<Rightarrow> ui" where
  "clearInterval h st =
     (case h of None \<Rightarrow> st | Some t \<Rightarrow> st\<lparr>intervals := (intervals st)(t := None)\<rparr>)"

definition stopProgress :: "ui \<Rightarrow> ui" where
  "stopProgress st =
     (clearInterval (progressInterval st) st)\<lparr>barWidth := 100, progressDetail := lit ''Complete''\<rparr>"

text \<open>
  \<^verbatim>\<open>closeAgent\<close> hides the modal at once; its \<^verbatim>\<open>setTimeout\<close> callback forgets the
  current agent 300 ms later.
\<close>

definition closeAgent :: "ui \<Rightarrow> ui" where
  "closeAgent st = st\<lparr>modalActive := False\<rparr>"

definition closeAgent_timeout :: "ui \<Rightarrow> ui" where
  "closeAgent_timeout st = st\<lparr>currentAgent := None\<rparr>"

section \<open>Opening an agent\<close>

text \<open>
  The table \<^verbatim>\<open>AGENT_OPTIONS\<close> of \<^verbatim>\<open>renderOptions\<close>; \<open>opt_default\<close> is the text
  that \<^verbatim>\<open>${opt.default}\<close> prints.
\<close>

datatype option_def =
  OptionDef (opt_name: js_string) (opt_label: js_string) (opt_type: js_string)
    (opt_options: "js_string list") (opt_default: js_string)

definition AGENT_OPTIONS :: "(js_string \<times> option_def list) list" where
  "AGENT_OPTIONS =
     [(lit ''presentation_gen'',
        [OptionDef (lit ''num_slides'') (lit ''Slides'') (lit ''number'') [] (lit ''5'')]),
      (lit ''quiz_gen'',
        [OptionDef (lit ''difficulty'') (lit ''Difficulty'') (lit ''select'')
           [lit ''easy'', lit ''medium'', lit ''hard''] (lit ''medium'')]),
      (lit ''student_gen'',
        [OptionDef (lit ''command'') (lit ''Task'') (lit ''select'')
           [lit ''notes'', lit ''roadmap'', lit ''quiz'', lit ''dsa'', lit ''debug'',
            lit ''interview''] (lit ''notes'')]),
      (lit ''nexus'',
        [OptionDef (lit ''module'') (lit ''Module'') (lit ''select'')
           [lit ''codex'', lit ''sherlock'', lit ''aria'', lit ''atlas''] (lit ''codex''),
         OptionDef (lit ''command'') (lit ''Action'') (lit ''select'')
           [lit ''review'', lit ''debug'', lit ''research'', lit ''design''] (lit ''review'')]),
      (lit ''quanta'',
        [OptionDef (lit ''module'') (lit ''Domain'') (lit ''select'')
           [lit ''quantum'', lit ''medica''] (lit ''quantum''),
         OptionDef (lit ''command'') (lit ''Analysis'') (lit ''select'')
           [lit ''algorithm'', lit ''hardware'', lit ''interactions''] (lit ''algorithm'')]),
      (lit ''resume_opt'',
        [OptionDef (lit ''job_description'') (lit ''Job Description (Optional)'') (lit ''text'')
           [] []]),
      (lit ''debate_coach'',
        [OptionDef (lit ''user_argument'') (lit ''Your Argument'') (lit ''text'') [] []]),
      (lit ''travel_plan'',
        [OptionDef (lit ''duration'') (lit ''Duration'') (lit ''text'') [] (lit ''3 days''),
         OptionDef (lit ''budget'') (lit ''Budget'') (lit ''select'')
           [lit ''Low'', lit ''Medium'', lit ''High'', lit ''Luxury''] (lit ''Medium''),
         OptionDef (lit ''interests'') (lit ''Interests'') (lit ''text'') []
           (lit ''Sightseeing, Food, History'')])]"

text \<open>
  The fields that \<^verbatim>\<open>renderOptions(id)\<close> puts into the options container, as
  \<^verbatim>\<open>querySelectorAll('input, select')\<close> finds them afterwards: a \<^verbatim>\<open>select\<close>
  element has the type \<^verbatim>\<open>select-one\<close> and the value of its selected option (the
  default, or the first option when the default is not among them), an
  \<^verbatim>\<open>input\<close> has the type and the default of its definition.
\<close>

definition renderOption :: "option_def \<Rightarrow> form_el" where
  "renderOption opt =
     (if opt_type opt = lit ''select'' then
        \<lparr>el_name = opt_name opt, el_type = lit ''select-one'',
         el_value = (if opt_default opt \<in> set (opt_options opt) then opt_default opt
                     else case opt_options opt of [] \<Rightarrow> [] | first # others \<Rightarrow> first)\<rparr>
      else \<lparr>el_name = opt_name opt, el_type = opt_type opt, el_value = opt_default opt\<rparr>)"

definition renderOptions :: "js_string \<Rightarrow> form_el list" where
  "renderOptions ident =
     map renderOption (case map_of AGENT_OPTIONS ident of None \<Rightarrow> [] | Some opts \<Rightarrow> opts)"

text \<open>
  The tables of the script are plain objects, so for an identifier that names a
  member of \<^verbatim>\<open>Object.prototype\<close> the lookup \<^verbatim>\<open>AGENT_OPTIONS[id]\<close> finds that
  member, \<^verbatim>\<open>options.map\<close> is not a function, and \<^verbatim>\<open>openAgent\<close> stops there with
  a TypeError that nothing catches.
\<close>

definition objectPrototypeKeys :: "js_string list" where
  "objectPrototypeKeys =
     [lit ''constructor'', lit ''hasOwnProperty'', lit ''isPrototypeOf'',
      lit ''propertyIsEnumerable'', lit ''toLocaleString'', lit ''toString'', lit ''valueOf'',
      lit ''__proto__'', lit ''__defineGetter__'', lit ''__defineSetter__'',
      lit ''__lookupGetter__'', lit ''__lookupSetter__'']"

text \<open>
  \<^verbatim>\<open>openAgent(id)\<close>: nothing happens when no loaded agent has the identifier;
  otherwise the agent becomes the current one, the topic field is emptied, the
  options are rendered, the result and progress areas are hidden, the submit
  button is enabled and the modal is shown. A call that is still pending is not
  touched.
\<close>

definition openAgent :: "js_string \<Rightarrow> ui \<Rightarrow> ui" where
  "openAgent ident st =
     (case find (\<lambda>a. agent_id a = ident) (agents st) of
        None \<Rightarrow> st
      | Some a \<Rightarrow>
          let st1 = st\<lparr>currentAgent := Some a, inputValue := []\<rparr>
          in if ident \<in> set objectPrototypeKeys then st1
             else st1\<lparr>formEls := renderOptions ident,
                      resultVisible := False,
                      progressVisible := False,
                      submitDisabled := False,
                      submitHtml := ExecuteAgent,
                      modalActive := True\<rparr>)"

section \<open>Rendering\<close>

definition showError :: "error_msg \<Rightarrow> ui \<Rightarrow> ui" where
  "showError msg st = st\<lparr>resultDisplay := ErrorHtml msg, resultVisible := True\<rparr>"

text \<open>
  \<^verbatim>\<open>const name = file.split(/[/\\]/).pop();\<close> An \<^verbatim>\<open>undefined\<close> name would print
  as the text \<^verbatim>\<open>undefined\<close> in the link.
\<close>

definition fileName :: "js_string \<Rightarrow> js_string" where
  "fileName file = (case pop (split file) of None \<Rightarrow> lit ''undefined'' | Some name \<Rightarrow> name)"

text \<open>
  \<^verbatim>\<open>renderResult(id, result)\<close> returns the page it leaves behind and the error it
  throws, if any: \<^verbatim>\<open>result.pdf\<close> throws on \<^verbatim>\<open>null\<close> and \<^verbatim>\<open>undefined\<close>, and
  \<^verbatim>\<open>file.split\<close> is not a function when the artifact found is not a string.
\<close>

definition renderResult :: "js_string \<Rightarrow> jsval \<Rightarrow> ui \<Rightarrow> ui \<times> js_error option" where
  "renderResult ident result st =
     (case getProp result (lit ''pdf'') of
        Inl e \<Rightarrow> (st, Some e)
      | Inr pdf \<Rightarrow>
          let st1 = st\<lparr>resultDisplay := ResultHtml (truthy pdf) result\<rparr>
          in case findOutputFile result of
               Inl e \<Rightarrow> (st1, Some e)
             | Inr file \<Rightarrow>
                 if truthy file then
                   (case file of
                      JStr path \<Rightarrow>
                        let name = fileName path
                        in (st1\<lparr>downloadBtn := \<lparr>href = lit ''/files/'' @ name, download = name,
                                                 btn_display = lit ''inline-flex''\<rparr>,
                                 resultVisible := True\<rparr>, None)
                    | _ \<Rightarrow> (st1, Some TypeError))
                 else (st1\<lparr>downloadBtn := (downloadBtn st1)\<lparr>btn_display := lit ''none''\<rparr>,
                           resultVisible := True\<rparr>, None))"

section \<open>The submit handler\<close>

text \<open>
  \<^verbatim>\<open>
  elements.options.querySelectorAll('input, select').forEach(el => {
      options[el.name] = el.type === 'number' ? parseInt(el.value) : el.value;
  });
  \<close>
\<close>

definition optionValue :: "form_el \<Rightarrow> jsval" where
  "optionValue el =
     (if el_type el = lit ''number'' then parseInt (el_value el) else JStr (el_value el))"

definition gatherOptions :: "form_el list \<Rightarrow> (js_string \<rightharpoonup> jsval)" where
  "gatherOptions els =
     fold (\<lambda>el options. options(el_name el \<mapsto> optionValue el)) els Map.empty"

text \<open>
  The handler up to the \<^verbatim>\<open>fetch\<close> call: the page it leaves and the request it
  posts to \<^verbatim>\<open>/api/execute\<close>, \<open>None\<close> when it returns without calling \<^verbatim>\<open>fetch\<close>.
\<close>

definition submit_click :: "ui \<Rightarrow> ui \<times> request option" where
  "submit_click st =
     (case currentAgent st of
        None \<Rightarrow> (st, None)
      | Some a \<Rightarrow>
          let topic = trim (inputValue st)
          in if topic = [] then (st\<lparr>inputFocused := True\<rparr>, None)
             else let options = gatherOptions (formEls st);
                      st1 = st\<lparr>submitDisabled := True, submitHtml := Processing\<rparr>;
                      st2 = startProgress st1
                  in (st2, Some \<lparr>agent = agent_id a, topic = topic, options = options\<rparr>))"

text \<open>
  How the awaited call ends: \<^verbatim>\<open>res.json()\<close> delivers \<^verbatim>\<open>data\<close>, or \<^verbatim>\<open>fetch\<close> or
  \<^verbatim>\<open>res.json()\<close> rejects with an error.
\<close>

datatype response = Resolved jsval | Rejected js_error

text \<open>
  The rest of the handler, \<^verbatim>\<open>try { ... } catch (err) { ... } finally { ... }\<close>:
  \<open>try_body\<close> returns the page and the error thrown inside \<^verbatim>\<open>try\<close>, if any.
\<close>

definition try_body :: "response \<Rightarrow> ui \<Rightarrow> ui \<times> js_error option" where
  "try_body resp st =
     (case resp of
        Rejected err \<Rightarrow> (st, Some err)
      | Resolved data \<Rightarrow>
          (case getProp data (lit ''success'') of
             Inl e \<Rightarrow> (st, Some e)
           | Inr success \<Rightarrow>
               if truthy success then
                 (case currentAgent st of
                    None \<Rightarrow> (st, Some TypeError)
                  | Some a \<Rightarrow>
                      (case getProp data (lit ''result'') of
                         Inl e \<Rightarrow> (st, Some e)
                       | Inr result \<Rightarrow> renderResult (agent_id a) result st))
               else
                 (case getProp data (lit ''detail'') of
                    Inl e \<Rightarrow> (st, Some e)
                  | Inr detail \<Rightarrow>
                      (showError (Text (if truthy detail then detail
                                        else JStr (lit ''Execution failed''))) st, None))))"

definition submit_settle :: "response \<Rightarrow> ui \<Rightarrow> ui" where
  "submit_settle resp st =
     (let (st1, thrown) = try_body resp st;
          st2 = (case thrown of None \<Rightarrow> st1 | Some err \<Rightarrow> showError (ErrorMessage err) st1);
          st3 = st2\<lparr>submitDisabled := False, submitHtml := ExecuteAgent\<rparr>
      in stopProgress st3)"

text \<open>
  What can happen on the page while calls are pending: a timer fires, the user
  closes the modal, the close timeout runs, the list of agents arrives, the user
  opens an agent, types into the topic field, changes an option field, or clicks
  the submit button (a disabled button receives no click).
\<close>

datatype event =
    Tick nat real
  | CloseAgent
  | CloseTimeout
  | LoadAgents "agent_descriptor list"
  | OpenAgent js_string
  | TypeTopic js_string
  | SetOption js_string js_string
  | Submit

fun step :: "event \<Rightarrow> ui \<Rightarrow> ui" where
  "step (Tick t random) st = tick t random st"
| "step CloseAgent st = closeAgent st"
| "step CloseTimeout st = closeAgent_timeout st"
| "step (LoadAgents as) st = st\<lparr>agents := as\<rparr>"
| "step (OpenAgent ident) st = openAgent ident st"
| "step (TypeTopic text) st = st\<lparr>inputValue := text\<rparr>"
| "step (SetOption name text) st =
     st\<lparr>formEls := map (\<lambda>el. if el_name el = name then el\<lparr>el_value := text\<rparr> else el)
                         (formEls st)\<rparr>"
| "step Submit st = (if submitDisabled st then st else fst (submit_click st))"

definition run :: "event list \<Rightarrow> ui \<Rightarrow> ui" where
  "run evs st = fold step evs st"

text \<open>
  A longer stretch of the page's life also sees pending calls end, each with its
  response; several calls can be pending at once, since \<^verbatim>\<open>openAgent\<close> enables
  the submit button again while a call is pending.
\<close>

datatype occurrence = Page event | CallEnd response

fun occur :: "occurrence \<Rightarrow> ui \<Rightarrow> ui" where
  "occur (Page ev) st = step ev st"
| "occur (CallEnd resp) st = submit_settle resp st"

definition history :: "occurrence list \<Rightarrow> ui \<Rightarrow> ui" where
  "history occs st = fold occur occs st"

fun isSubmit :: "occurrence \<Rightarrow> bool" where
  "isSubmit (Page Submit) = True"
| "isSubmit occ = False"

text \<open>
  A page for the examples: two agents are loaded, the presentation agent is open,
  a topic is typed into the topic field, the form has its one number field, which
  the user has emptied, and nothing has been submitted yet.
\<close>

definition example_page :: ui where
  "example_page =
     \<lparr>agents = [\<lparr>agent_id = lit ''presentation_gen'', agent_name = lit ''presentation_gen'',
                  agent_description = lit ''Slides''\<rparr>,
                \<lparr>agent_id = lit ''quiz_gen'', agent_name = lit ''quiz_gen'',
                  agent_description = lit ''Quizzes''\<rparr>],
      currentAgent = Some \<lparr>agent_id = lit ''presentation_gen'', agent_name = lit ''presentation_gen'',
                            agent_description = lit ''Slides''\<rparr>,
      progressInterval = None,
      intervals = Map.empty,
      nextInterval = 1,
      modalActive = True,
      inputValue = lit ''Python Basics'',
      inputFocused = False,
      formEls = [\<lparr>el_name = lit ''num_slides'', el_type = lit ''number'', el_value = []\<rparr>],
      submitDisabled = False,
      submitHtml = ExecuteAgent,
      progressVisible = False,
      progressStatus = [],
      progressDetail = [],
      barWidth = 0,
      resultVisible = False,
      resultDisplay = Empty,
      downloadBtn = \<lparr>href = [], download = [], btn_display = lit ''none''\<rparr>\<rparr>"

section \<open>Facts about string literals\<close>

lemma lit_eq_iff [simp]: "lit a = lit b \<longleftrightarrow> a = b"
  by (simp add: lit_def inj_map_eq_map inj_of_char)

lemma lit_eq_Nil_iff [simp]: "lit a = [] \<longleftrightarrow> a = []"
  by (simp add: lit_def)

lemma Nil_eq_lit_iff [simp]: "[] = lit a \<longleftrightarrow> a = []"
  by (auto simp: lit_def)

section \<open>Facts about the artifact resolver\<close>

lemma getProp_container:
  "truthy obj \<Longrightarrow> typeof obj = lit ''object'' \<Longrightarrow> \<exists>v. getProp obj k = Inr v"
  by (cases obj) simp_all

lemma findOutputFile_total_aux:
  "(\<exists>r. findOutputFile v = Inr r \<and> (r = JNull \<or> truthy r))"
  "(\<exists>r. findOutputFile_loop xs = Inr r \<and> (r = JNull \<or> truthy r))"
proof (induction v and xs rule: findOutputFile_findOutputFile_loop.induct)
  case (1 obj)
  show ?case
  proof (cases "\<not> truthy obj \<or> typeof obj \<noteq> lit ''object''")
    case True
    then show ?thesis by auto
  next
    case False
    then obtain p q i where g: "getProp obj (lit ''pdf'') = Inr p"
      "getProp obj (lit ''output_file'') = Inr q" "getProp obj (lit ''image_path'') = Inr i"
      using getProp_container by (metis (full_types))
    show ?thesis
    proof (cases "truthy p \<or> truthy q \<or> truthy i")
      case True
      with False g show ?thesis by auto
    next
      case nt: False
      with 1 False g have "\<exists>r. findOutputFile_loop (forInValues obj) = Inr r \<and> (r = JNull \<or> truthy r)"
        by blast
      with False g nt show ?thesis by auto
    qed
  qed
next
  case 2
  show ?case by simp
next
  case (3 x xs)
  then show ?case by (auto split: sum.splits)
qed

lemma bindings_props_keys:
  "k \<notin> fst ` set (bindings_props kvs) \<Longrightarrow> map_of kvs k = None"
  by (induction kvs) (auto)

lemma bindings_props_sub:
  "set (bindings_elems (map snd kvs)) \<subseteq> set (bindings_props kvs)"
  by (induction kvs) auto

lemma no_artifact_aux:
  "fst ` set (bindings v) \<inter> set artifactKeys = {} \<Longrightarrow> findOutputFile v = Inr JNull"
  "fst ` set (bindings_elems xs) \<inter> set artifactKeys = {} \<Longrightarrow> findOutputFile_loop xs = Inr JNull"
proof (induction v and xs rule: findOutputFile_findOutputFile_loop.induct)
  case (1 obj)
  show ?case
  proof (cases obj)
    case (JObj kvs)
    from 1(2) JObj have nk: "lit ''pdf'' \<notin> fst ` set (bindings_props kvs)"
      "lit ''output_file'' \<notin> fst ` set (bindings_props kvs)"
      "lit ''image_path'' \<notin> fst ` set (bindings_props kvs)"
      by (auto simp: artifactKeys_def)
    then have m: "map_of kvs (lit ''pdf'') = None" "map_of kvs (lit ''output_file'') = None"
      "map_of kvs (lit ''image_path'') = None"
      by (simp_all add: bindings_props_keys)
    from 1(2) JObj bindings_props_sub[of kvs]
    have "fst ` set (bindings_elems (forInValues obj)) \<inter> set artifactKeys = {}"
      by auto
    with 1(1)[of JUndefined JUndefined JUndefined] JObj m
    have "findOutputFile_loop (forInValues obj) = Inr JNull" by simp
    with JObj m show ?thesis by simp
  next
    case (JArr xs)
    with 1(2) have "fst ` set (bindings_elems (forInValues obj)) \<inter> set artifactKeys = {}"
      by simp
    with 1(1)[of JUndefined JUndefined JUndefined] JArr
    have "findOutputFile_loop (forInValues obj) = Inr JNull" by simp
    with JArr show ?thesis by simp
  qed simp_all
next
  case 2
  show ?case by simp
next
  case (3 x xs)
  from 3(3) have a: "fst ` set (bindings x) \<inter> set artifactKeys = {}"
    and b: "fst ` set (bindings_elems xs) \<inter> set artifactKeys = {}"
    by auto
  from 3(1)[OF a] have fx: "findOutputFile x = Inr JNull" .
  from 3(2)[OF fx _ b] have "findOutputFile_loop xs = Inr JNull" by simp
  with fx show ?case by simp
qed

lemma size_forInValues_mem:
  "x \<in> set (forInValues obj) \<Longrightarrow> size x < size obj"
proof (cases obj)
  case (JObj kvs)
  assume "x \<in> set (forInValues obj)"
  with JObj obtain k where "(k, x) \<in> set kvs" by auto
  then have "size x < Suc (size_list (size_prod (\<lambda>_. 0) size) kvs)"
    by (induction kvs) auto
  with JObj show ?thesis by simp
next
  case (JArr xs)
  assume "x \<in> set (forInValues obj)"
  with JArr have "x \<in> set xs" by simp
  then have "size x < Suc (size_list size xs)"
    by (induction xs) auto
  with JArr show ?thesis by simp
qed simp_all

lemma fuel_aux:
  "\<forall>n. size v < n \<longrightarrow> findOutputFile_fuel n v = Some (findOutputFile v)"
  "\<forall>n. (\<forall>x\<in>set xs. size x < n) \<longrightarrow> findOutputFile_loop_fuel n xs = Some (findOutputFile_loop xs)"
proof (induction v and xs rule: findOutputFile_findOutputFile_loop.induct)
  case (1 obj)
  show ?case
  proof (intro allI impI)
    fix n assume "size obj < n"
    then obtain m where n: "n = Suc m" and m: "size obj \<le> m"
      by (cases n) auto
    show "findOutputFile_fuel n obj = Some (findOutputFile obj)"
    proof (cases "\<not> truthy obj \<or> typeof obj \<noteq> lit ''object''")
      case True
      then show ?thesis using n by auto
    next
      case False
      then obtain p q i where g: "getProp obj (lit ''pdf'') = Inr p"
        "getProp obj (lit ''output_file'') = Inr q" "getProp obj (lit ''image_path'') = Inr i"
        using getProp_container by (metis (full_types))
      show ?thesis
      proof (cases "truthy p \<or> truthy q \<or> truthy i")
        case True
        with False g n show ?thesis by auto
      next
        case nt: False
        have "\<forall>x\<in>set (forInValues obj). size x < m"
          using size_forInValues_mem m by fastforce
        with 1 False g nt
        have "findOutputFile_loop_fuel m (forInValues obj) = Some (findOutputFile_loop (forInValues obj))"
          by blast
        with False g nt n show ?thesis by auto
      qed
    qed
  qed
next
  case 2
  show ?case by simp
next
  case (3 x xs)
  show ?case
  proof (intro allI impI)
    fix n assume a: "\<forall>y\<in>set (x # xs). size y < n"
    then have fx: "findOutputFile_fuel n x = Some (findOutputFile x)"
      using 3(1) by simp
    obtain r where r: "findOutputFile x = Inr r"
      using findOutputFile_total_aux(1) by blast
    show "findOutputFile_loop_fuel n (x # xs) = Some (findOutputFile_loop (x # xs))"
    proof (cases "truthy r")
      case True
      with fx r show ?thesis by simp
    next
      case False
      with 3(2)[OF r False] a have "findOutputFile_loop_fuel n xs = Some (findOutputFile_loop xs)"
        by simp
      with fx r False show ?thesis by simp
    qed
  qed
qed

declare findOutputFile.simps [simp del]

lemma truthy_drop [simp]: "truthy (dropFalsyArtifacts v) = truthy v"
  by (cases v) simp_all

lemma typeof_drop [simp]: "typeof (dropFalsyArtifacts v) = typeof v"
  by (cases v) simp_all

lemma findOutputFile_falsy: "\<not> truthy v \<Longrightarrow> findOutputFile v = Inr JNull"
  by (simp add: findOutputFile.simps)

lemma drop_props_keys: "fst ` set (dropFalsyArtifacts_props kvs) \<subseteq> fst ` set kvs"
  by (induction kvs) auto

lemma map_of_drop_props:
  "distinct (map fst kvs) \<Longrightarrow> k \<in> set artifactKeys \<Longrightarrow>
   map_of (dropFalsyArtifacts_props kvs) k =
     (case map_of kvs k of None \<Rightarrow> None
      | Some v \<Rightarrow> if truthy v then Some (dropFalsyArtifacts v) else None)"
proof (induction kvs)
  case Nil
  show ?case by simp
next
  case (Cons kv kvs)
  show ?case
  proof (cases "fst kv = k")
    case True
    with Cons.prems have "k \<notin> fst ` set kvs" by auto
    with drop_props_keys[of kvs] have "k \<notin> fst ` set (dropFalsyArtifacts_props kvs)" by blast
    then have "map_of (dropFalsyArtifacts_props kvs) k = None"
      by (simp add: map_of_eq_None_iff)
    with True Cons.prems show ?thesis by (simp add: falsyArtifact_def)
  next
    case False
    with Cons show ?thesis by (simp add: falsyArtifact_def)
  qed
qed

lemma getProp_drop:
  assumes "distinct (map fst kvs)" "k \<in> set artifactKeys"
    and "getProp (JObj kvs) k = Inr v"
  shows "\<exists>w. getProp (JObj (dropFalsyArtifacts_props kvs)) k = Inr w \<and> truthy w = truthy v
            \<and> (truthy v \<longrightarrow> w = dropFalsyArtifacts v)"
proof (cases "map_of kvs k")
  case None
  with assms(3) map_of_drop_props[OF assms(1,2)] show ?thesis by simp
next
  case (Some u)
  with assms(3) map_of_drop_props[OF assms(1,2)] show ?thesis by auto
qed

lemma loop_drop_props:
  "findOutputFile_loop (map snd (dropFalsyArtifacts_props kvs)) =
   findOutputFile_loop (dropFalsyArtifacts_elems (map snd kvs))"
proof (induction kvs)
  case Nil
  show ?case by simp
next
  case (Cons kv kvs)
  show ?case
  proof (cases "falsyArtifact kv")
    case True
    then have "findOutputFile (dropFalsyArtifacts (snd kv)) = Inr JNull"
      by (simp add: falsyArtifact_def findOutputFile_falsy)
    with True Cons show ?thesis by simp
  next
    case False
    with Cons show ?thesis by (simp split: sum.splits)
  qed
qed

lemma distinctKeys_props_elems: "distinctKeys_elems (map snd kvs) = distinctKeys_props kvs"
  by (induction kvs) auto

lemma drop_aux:
  "distinctKeys v \<Longrightarrow> findOutputFile v = Inr r \<Longrightarrow>
     findOutputFile (dropFalsyArtifacts v) = Inr (dropFalsyArtifacts r)"
  "distinctKeys_elems xs \<Longrightarrow> findOutputFile_loop xs = Inr r \<Longrightarrow>
     findOutputFile_loop (dropFalsyArtifacts_elems xs) = Inr (dropFalsyArtifacts r)"
proof (induction v and xs arbitrary: r and r rule: findOutputFile_findOutputFile_loop.induct)
  case (1 obj)
  show ?case
  proof (cases obj)
    case (JObj kvs)
    from 1(2) JObj have d: "distinct (map fst kvs)" and dp: "distinctKeys_props kvs" by simp_all
    define kvs' where "kvs' = dropFalsyArtifacts_props kvs"
    obtain p q i where g: "getProp (JObj kvs) (lit ''pdf'') = Inr p"
      "getProp (JObj kvs) (lit ''output_file'') = Inr q" "getProp (JObj kvs) (lit ''image_path'') = Inr i"
      by simp
    obtain p' where p': "getProp (JObj kvs') (lit ''pdf'') = Inr p'" "truthy p' = truthy p"
        "truthy p \<longrightarrow> p' = dropFalsyArtifacts p"
      using getProp_drop[OF d _ g(1)] by (auto simp: artifactKeys_def kvs'_def)
    obtain q' where q': "getProp (JObj kvs') (lit ''output_file'') = Inr q'" "truthy q' = truthy q"
        "truthy q \<longrightarrow> q' = dropFalsyArtifacts q"
      using getProp_drop[OF d _ g(2)] by (auto simp: artifactKeys_def kvs'_def)
    obtain i' where i': "getProp (JObj kvs') (lit ''image_path'') = Inr i'" "truthy i' = truthy i"
        "truthy i \<longrightarrow> i' = dropFalsyArtifacts i"
      using getProp_drop[OF d _ g(3)] by (auto simp: artifactKeys_def kvs'_def)
    have unf: "findOutputFile (JObj kvs) =
        (if truthy p then Inr p else if truthy q then Inr q else if truthy i then Inr i
         else findOutputFile_loop (map snd kvs))"
      using g by (subst findOutputFile.simps) simp
    have unf': "findOutputFile (JObj kvs') =
        (if truthy p then Inr p' else if truthy q then Inr q' else if truthy i then Inr i'
         else findOutputFile_loop (map snd kvs'))"
      using p' q' i' by (subst findOutputFile.simps) simp
    show ?thesis
    proof (cases "truthy p \<or> truthy q \<or> truthy i")
      case True
      with 1(3) JObj unf unf' p' q' i' show ?thesis
        by (auto simp: kvs'_def split: if_splits)
    next
      case False
      with 1(3) JObj unf have l: "findOutputFile_loop (forInValues obj) = Inr r" by simp
      have "distinctKeys_elems (forInValues obj)"
        using JObj dp by (simp add: distinctKeys_props_elems)
      from 1(1)[OF _ _ _ _ _ _ _ this l] g False JObj
      have "findOutputFile_loop (dropFalsyArtifacts_elems (map snd kvs)) = Inr (dropFalsyArtifacts r)"
        by simp
      then have "findOutputFile_loop (map snd kvs') = Inr (dropFalsyArtifacts r)"
        by (simp add: kvs'_def loop_drop_props)
      with False unf' JObj show ?thesis by (simp add: kvs'_def)
    qed
  next
    case (JArr xs)
    from 1(3) JArr have l: "findOutputFile_loop (forInValues obj) = Inr r"
      by (simp add: findOutputFile.simps)
    from 1(2) JArr have "distinctKeys_elems (forInValues obj)" by simp
    from 1(1)[OF _ _ _ _ _ _ _ this l] JArr
    have "findOutputFile_loop (dropFalsyArtifacts_elems xs) = Inr (dropFalsyArtifacts r)"
      by simp
    with JArr show ?thesis by (simp add: findOutputFile.simps)
  qed (use 1(3) in \<open>auto simp: findOutputFile.simps\<close>)
next
  case 2
  then show ?case by simp
next
  case (3 x xs)
  obtain s where s: "findOutputFile x = Inr s" "s = JNull \<or> truthy s"
    using findOutputFile_total_aux(1) by blast
  from 3(3) have dx: "distinctKeys x" and dxs: "distinctKeys_elems xs" by simp_all
  from 3(1)[OF dx s(1)] have fx: "findOutputFile (dropFalsyArtifacts x) = Inr (dropFalsyArtifacts s)" .
  show ?case
  proof (cases "truthy s")
    case True
    with s 3(4) have "r = s" by simp
    with fx True show ?thesis by simp
  next
    case False
    with s 3(4) have "findOutputFile_loop xs = Inr r" by simp
    from 3(2)[OF s(1) False dxs this] fx False show ?thesis by simp
  qed
qed

subsection \<open>The resolver returns the first truthy artifact binding of the search order\<close>

lemma truthy_firstTruthy: "truthy (firstTruthy kvs) \<longleftrightarrow> (\<exists>kv\<in>set kvs. truthy (snd kv))"
proof (cases "filter (\<lambda>kv. truthy (snd kv)) kvs")
  case Nil
  then have "\<forall>kv\<in>set kvs. \<not> truthy (snd kv)" by (simp add: filter_empty_conv)
  with Nil show ?thesis by (simp add: firstTruthy_def)
next
  case (Cons a as)
  then have "a \<in> set (filter (\<lambda>kv. truthy (snd kv)) kvs)" by simp
  then have "a \<in> set kvs" "truthy (snd a)" by simp_all
  with Cons show ?thesis by (auto simp: firstTruthy_def)
qed

lemma firstTruthy_append:
  "firstTruthy (xs @ ys) = (if truthy (firstTruthy xs) then firstTruthy xs else firstTruthy ys)"
proof (cases "filter (\<lambda>kv. truthy (snd kv)) xs")
  case Nil
  then have "\<not> truthy (firstTruthy xs)" by (simp add: firstTruthy_def)
  with Nil show ?thesis by (simp add: firstTruthy_def)
next
  case (Cons a as)
  then have "truthy (firstTruthy xs)"
    using truthy_firstTruthy[of xs] by (metis filter_empty_conv list.distinct(1))
  with Cons show ?thesis by (simp add: firstTruthy_def)
qed

lemma firstTruthy_null_or_truthy: "firstTruthy kvs = JNull \<or> truthy (firstTruthy kvs)"
proof (cases "\<exists>kv\<in>set kvs. truthy (snd kv)")
  case True
  then show ?thesis by (simp add: truthy_firstTruthy)
next
  case False
  then have "filter (\<lambda>kv. truthy (snd kv)) kvs = []" by (simp add: filter_empty_conv)
  then show ?thesis by (simp add: firstTruthy_def)
qed

lemma firstTruthy_first:
  "list_all (\<lambda>kv. \<not> truthy (snd kv)) pre \<Longrightarrow> truthy x \<Longrightarrow>
   firstTruthy (pre @ (k, x) # post) = x"
  by (simp add: firstTruthy_def list_all_iff)

lemma firstTruthy_none:
  "list_all (\<lambda>kv. \<not> truthy (snd kv)) kvs \<Longrightarrow> firstTruthy kvs = JNull"
  by (simp add: firstTruthy_def list_all_iff)

lemma firstTruthy_ownArtifacts:
  "firstTruthy (ownArtifacts kvs) =
     (let p = (case map_of kvs (lit ''pdf'') of None \<Rightarrow> JUndefined | Some v \<Rightarrow> v);
          q = (case map_of kvs (lit ''output_file'') of None \<Rightarrow> JUndefined | Some v \<Rightarrow> v);
          i = (case map_of kvs (lit ''image_path'') of None \<Rightarrow> JUndefined | Some v \<Rightarrow> v)
      in if truthy p then p else if truthy q then q else if truthy i then i else JNull)"
  by (simp add: ownArtifacts_def artifactKeys_def firstTruthy_def Let_def split: option.splits)

lemma searchOrder_props_elems: "searchOrder_props kvs = searchOrder_elems (map snd kvs)"
  by (induction kvs) auto

lemma searchOrder_forIn:
  "truthy obj \<Longrightarrow> typeof obj = lit ''object'' \<Longrightarrow>
   searchOrder obj = (case obj of JObj kvs \<Rightarrow> ownArtifacts kvs | _ \<Rightarrow> [])
                       @ searchOrder_elems (forInValues obj)"
  by (cases obj) (simp_all add: searchOrder_props_elems)

lemma findOutputFile_firstTruthy_aux:
  "findOutputFile v = Inr (firstTruthy (searchOrder v))"
  "findOutputFile_loop xs = Inr (firstTruthy (searchOrder_elems xs))"
proof (induction v and xs rule: findOutputFile_findOutputFile_loop.induct)
  case (1 obj)
  show ?case
  proof (cases obj)
    case (JObj kvs)
    define p where "p = (case map_of kvs (lit ''pdf'') of None \<Rightarrow> JUndefined | Some v \<Rightarrow> v)"
    define q where "q = (case map_of kvs (lit ''output_file'') of None \<Rightarrow> JUndefined | Some v \<Rightarrow> v)"
    define i where "i = (case map_of kvs (lit ''image_path'') of None \<Rightarrow> JUndefined | Some v \<Rightarrow> v)"
    have g: "getProp obj (lit ''pdf'') = Inr p" "getProp obj (lit ''output_file'') = Inr q"
      "getProp obj (lit ''image_path'') = Inr i"
      using JObj by (simp_all add: p_def q_def i_def)
    have own: "firstTruthy (ownArtifacts kvs) =
        (if truthy p then p else if truthy q then q else if truthy i then i else JNull)"
      by (simp add: firstTruthy_ownArtifacts p_def q_def i_def)
    have unf: "findOutputFile obj =
        (if truthy p then Inr p else if truthy q then Inr q else if truthy i then Inr i
         else findOutputFile_loop (forInValues obj))"
      using g JObj by (subst findOutputFile.simps) simp
    show ?thesis
    proof (cases "truthy p \<or> truthy q \<or> truthy i")
      case True
      with own have "truthy (firstTruthy (ownArtifacts kvs))" by auto
      with unf own True JObj show ?thesis by (auto simp: firstTruthy_append)
    next
      case False
      with own have nt: "\<not> truthy (firstTruthy (ownArtifacts kvs))" by simp
      from 1 [OF _ g(1) _ g(2) _ g(3)] False JObj
      have "findOutputFile_loop (forInValues obj) = Inr (firstTruthy (searchOrder_elems (forInValues obj)))"
        by simp
      with unf False nt JObj show ?thesis
        by (simp add: firstTruthy_append searchOrder_props_elems)
    qed
  next
    case (JArr xs)
    from 1 [of JUndefined JUndefined JUndefined] JArr
    have "findOutputFile_loop (forInValues obj) = Inr (firstTruthy (searchOrder_elems (forInValues obj)))"
      by simp
    with JArr show ?thesis by (simp add: findOutputFile.simps)
  qed (simp_all add: findOutputFile.simps firstTruthy_def)
next
  case 2
  show ?case by (simp add: firstTruthy_def)
next
  case (3 x xs)
  show ?case
  proof (cases "truthy (firstTruthy (searchOrder x))")
    case True
    with 3(1) show ?thesis by (simp add: firstTruthy_append)
  next
    case False
    with 3(2) [OF 3(1) False] 3(1) show ?thesis by (simp add: firstTruthy_append)
  qed
qed

lemma ownArtifacts_subset: "kv \<in> set (ownArtifacts kvs) \<Longrightarrow> kv \<in> set kvs \<and> fst kv \<in> set artifactKeys"
proof -
  assume "kv \<in> set (ownArtifacts kvs)"
  then obtain k x where k: "k \<in> set artifactKeys" "map_of kvs k = Some x" "kv = (k, x)"
    by (auto simp: ownArtifacts_def split: option.splits)
  from k(2) have "(k, x) \<in> set kvs" by (rule map_of_SomeD)
  with k show ?thesis by simp
qed

lemma ownArtifacts_complete:
  "distinct (map fst kvs) \<Longrightarrow> kv \<in> set kvs \<Longrightarrow> fst kv \<in> set artifactKeys \<Longrightarrow>
   kv \<in> set (ownArtifacts kvs)"
proof -
  assume d: "distinct (map fst kvs)" and m: "kv \<in> set kvs" and a: "fst kv \<in> set artifactKeys"
  from d m have "map_of kvs (fst kv) = Some (snd kv)" by (cases kv) simp
  with a show ?thesis by (cases kv) (force simp: ownArtifacts_def)
qed

lemma set_bindings_props: "set kvs \<subseteq> set (bindings_props kvs)"
  by (induction kvs) auto

lemma searchOrder_subset_aux:
  "set (searchOrder v) \<subseteq> {kv \<in> set (bindings v). fst kv \<in> set artifactKeys}"
  "set (searchOrder_props kvs) \<subseteq> {kv \<in> set (bindings_props kvs). fst kv \<in> set artifactKeys}"
  "set (searchOrder_elems xs) \<subseteq> {kv \<in> set (bindings_elems xs). fst kv \<in> set artifactKeys}"
proof (induction v and kvs and xs rule: searchOrder_searchOrder_props_searchOrder_elems.induct)
  case (1 kvs)
  have "set (ownArtifacts kvs) \<subseteq> {kv \<in> set (bindings_props kvs). fst kv \<in> set artifactKeys}"
    using ownArtifacts_subset set_bindings_props by blast
  with 1 show ?case by simp
qed auto

lemma searchOrder_complete_aux:
  "distinctKeys v \<Longrightarrow>
     {kv \<in> set (bindings v). fst kv \<in> set artifactKeys} \<subseteq> set (searchOrder v)"
  "distinctKeys_props kvs \<Longrightarrow>
     {kv \<in> set (bindings_props kvs). fst kv \<in> set artifactKeys}
       \<subseteq> {kv \<in> set kvs. fst kv \<in> set artifactKeys} \<union> set (searchOrder_props kvs)"
  "distinctKeys_elems xs \<Longrightarrow>
     {kv \<in> set (bindings_elems xs). fst kv \<in> set artifactKeys} \<subseteq> set (searchOrder_elems xs)"
proof (induction v and kvs and xs rule: searchOrder_searchOrder_props_searchOrder_elems.induct)
  case (1 kvs)
  then have d: "distinct (map fst kvs)" and dp: "distinctKeys_props kvs" by simp_all
  have "{kv \<in> set kvs. fst kv \<in> set artifactKeys} \<subseteq> set (ownArtifacts kvs)"
    using ownArtifacts_complete [OF d] by blast
  with 1(1) [OF dp] show ?case by auto
qed auto

lemma firstTruthy_mem:
  "firstTruthy kvs \<noteq> JNull \<Longrightarrow> \<exists>kv\<in>set kvs. snd kv = firstTruthy kvs"
proof (cases "filter (\<lambda>kv. truthy (snd kv)) kvs")
  case Nil
  assume "firstTruthy kvs \<noteq> JNull"
  with Nil show ?thesis by (simp add: firstTruthy_def)
next
  case (Cons a as)
  have "set (filter (\<lambda>kv. truthy (snd kv)) kvs) \<subseteq> set kvs" by auto
  with Cons have "a \<in> set kvs" by (metis list.set_intros(1) subsetD)
  with Cons show ?thesis by (auto simp: firstTruthy_def)
qed

section \<open>Facts about strings, the progress simulator and the submit handler\<close>

lemma trim_empty_iff: "trim s = [] \<longleftrightarrow> (\<forall>c\<in>set s. isWhiteSpace c)"
proof
  assume t: "trim s = []"
  show "\<forall>c\<in>set s. isWhiteSpace c"
  proof (cases "dropWhile isWhiteSpace s")
    case Nil
    then show ?thesis by (simp add: dropWhile_eq_Nil_conv)
  next
    case (Cons a as)
    then have "\<not> isWhiteSpace a" using hd_dropWhile[of isWhiteSpace s] by simp
    moreover from t have "\<forall>c\<in>set (dropWhile isWhiteSpace s). isWhiteSpace c"
      by (simp add: trim_def)
    ultimately show ?thesis using Cons by simp
  qed
next
  assume "\<forall>c\<in>set s. isWhiteSpace c"
  then have "dropWhile isWhiteSpace s = []" by simp
  then show "trim s = []" by (simp add: trim_def del: dropWhile_eq_Nil_conv)
qed

lemma split_nonempty: "split s \<noteq> []"
  by (induction s) (auto split: list.splits)

lemma last_split_no_separator: "c \<in> set (last (split s)) \<Longrightarrow> \<not> isSeparator c"
proof (induction s)
  case Nil
  then show ?case by simp
next
  case (Cons a s)
  show ?case
  proof (cases "isSeparator a")
    case True
    with Cons split_nonempty[of s] show ?thesis by simp
  next
    case False
    obtain seg segs where sp: "split s = seg # segs"
      using split_nonempty[of s] by (cases "split s") auto
    with Cons False show ?thesis by (cases segs) auto
  qed
qed

lemma split_no_separator: "\<forall>c\<in>set s. \<not> isSeparator c \<Longrightarrow> split s = [s]"
  by (induction s) auto

lemma split_two_segments: "\<exists>c\<in>set s. isSeparator c \<Longrightarrow> 2 \<le> length (split s)"
proof (induction s)
  case Nil
  then show ?case by simp
next
  case (Cons a s)
  obtain seg segs where sp: "split s = seg # segs"
    using split_nonempty[of s] by (cases "split s") auto
  show ?case
  proof (cases "isSeparator a")
    case True
    with sp show ?thesis by simp
  next
    case False
    with Cons.prems have "\<exists>c\<in>set s. isSeparator c" by auto
    with Cons.IH sp False show ?thesis by simp
  qed
qed

lemma last_split_after_separator:
  "isSeparator c \<Longrightarrow> last (split (xs @ c # ys)) = last (split ys)"
proof (induction xs)
  case Nil
  then show ?case using split_nonempty[of ys] by simp
next
  case (Cons a xs)
  obtain seg segs where sp: "split (xs @ c # ys) = seg # segs"
    using split_nonempty[of "xs @ c # ys"] by (cases "split (xs @ c # ys)") auto
  show ?case
  proof (cases "isSeparator a")
    case True
    with Cons sp show ?thesis by simp
  next
    case False
    have "2 \<le> length (split (xs @ c # ys))"
      using Cons.prems by (intro split_two_segments) auto
    with sp have "segs \<noteq> []" by auto
    with Cons sp False show ?thesis by simp
  qed
qed

lemma last_split_suffix:
  "\<exists>dir. s = dir @ last (split s) \<and> (dir = [] \<or> isSeparator (last dir))"
proof (cases "\<exists>c\<in>set s. isSeparator c")
  case False
  then have "split s = [s]" by (simp add: split_no_separator)
  then show ?thesis by simp
next
  case True
  then obtain xs c ys where s: "s = xs @ c # ys" "isSeparator c" "\<forall>z\<in>set ys. \<not> isSeparator z"
    using split_list_last_prop[of s isSeparator] by blast
  then have "last (split s) = ys"
    by (simp add: last_split_after_separator split_no_separator)
  with s have "s = (xs @ [c]) @ last (split s)" "isSeparator (last (xs @ [c]))" by simp_all
  then show ?thesis by blast
qed

lemma fileName_last: "fileName path = last (split path)"
  by (simp add: fileName_def pop_def split_nonempty)

lemma tick_bar: "intervals st t \<noteq> None \<Longrightarrow> barWidth (tick t r st) \<le> 90"
  by (auto simp: tick_def Let_def)

lemma tick_bar_le: "barWidth st \<le> 90 \<Longrightarrow> barWidth (tick t r st) \<le> 90"
  by (auto simp: tick_def Let_def split: option.splits)

lemma openAgent_keeps:
  "barWidth (openAgent ident st) = barWidth st"
  "progressInterval (openAgent ident st) = progressInterval st"
  "intervals (openAgent ident st) = intervals st"
  by (simp_all add: openAgent_def Let_def split: option.splits)

lemma submit_click_bar_le: "barWidth st \<le> 90 \<Longrightarrow> barWidth (fst (submit_click st)) \<le> 90"
  by (simp add: submit_click_def startProgress_def Let_def split: option.splits)

lemma step_bar_le: "barWidth st \<le> 90 \<Longrightarrow> barWidth (step ev st) \<le> 90"
  by (cases ev)
     (simp_all add: tick_bar_le closeAgent_def closeAgent_timeout_def openAgent_keeps
        submit_click_bar_le)

lemma run_bar_le: "barWidth st \<le> 90 \<Longrightarrow> barWidth (run evs st) \<le> 90"
  unfolding run_def by (induction evs arbitrary: st) (simp_all add: step_bar_le)

lemma step_progressInterval:
  "ev \<noteq> Submit \<Longrightarrow> progressInterval (step ev st) = progressInterval st"
  by (cases ev)
     (simp_all add: tick_def Let_def closeAgent_def closeAgent_timeout_def openAgent_keeps
        split: option.splits)

lemma renderResult_progressInterval: "progressInterval (fst (renderResult i r st)) = progressInterval st"
  by (simp add: renderResult_def Let_def split: sum.splits jsval.splits)

lemma try_body_progressInterval: "progressInterval (fst (try_body resp st)) = progressInterval st"
  by (simp add: try_body_def showError_def renderResult_progressInterval split: response.splits sum.splits option.splits)

lemma renderResult_intervals: "intervals (fst (renderResult i r st)) = intervals st"
  by (simp add: renderResult_def Let_def split: sum.splits jsval.splits)

lemma try_body_intervals: "intervals (fst (try_body resp st)) = intervals st"
  by (simp add: try_body_def showError_def renderResult_intervals
           split: response.splits sum.splits option.splits)

lemma submit_settle_progressInterval:
  "progressInterval (submit_settle resp st) = progressInterval st"
proof -
  obtain st1 thrown where tb: "try_body resp st = (st1, thrown)" by (cases "try_body resp st")
  with try_body_progressInterval[of resp st] have "progressInterval st1 = progressInterval st"
    by simp
  with tb show ?thesis
    by (simp add: submit_settle_def stopProgress_def clearInterval_def showError_def Let_def
             split: option.splits)
qed

lemma settle_clears:
  "progressInterval st = Some t \<Longrightarrow> intervals (submit_settle resp st) t = None"
proof -
  assume a: "progressInterval st = Some t"
  obtain st1 thrown where tb: "try_body resp st = (st1, thrown)" by (cases "try_body resp st")
  with try_body_progressInterval[of resp st] a have "progressInterval st1 = Some t" by simp
  with tb show ?thesis
    by (simp add: submit_settle_def stopProgress_def clearInterval_def showError_def split: option.splits)
qed

lemma settle_keeps_others:
  "progressInterval st = Some t \<Longrightarrow> t' \<noteq> t \<Longrightarrow>
   intervals (submit_settle resp st) t' = intervals st t'"
proof -
  assume a: "progressInterval st = Some t" and n: "t' \<noteq> t"
  obtain st1 thrown where tb: "try_body resp st = (st1, thrown)" by (cases "try_body resp st")
  with try_body_progressInterval[of resp st] try_body_intervals[of resp st] a
  have "progressInterval st1 = Some t" "intervals st1 = intervals st" by simp_all
  with tb n show ?thesis
    by (simp add: submit_settle_def stopProgress_def clearInterval_def showError_def
             split: option.splits)
qed

lemma occur_progressInterval:
  "\<not> isSubmit occ \<Longrightarrow> progressInterval (occur occ st) = progressInterval st"
proof (cases occ)
  case (Page ev)
  assume "\<not> isSubmit occ"
  with Page have "ev \<noteq> Submit" by auto
  with Page show ?thesis by (simp add: step_progressInterval)
next
  case (CallEnd resp)
  then show ?thesis by (simp add: submit_settle_progressInterval)
qed

lemma history_progressInterval:
  "\<not> list_ex isSubmit occs \<Longrightarrow> progressInterval (history occs st) = progressInterval st"
  unfolding history_def
  by (induction occs arbitrary: st) (simp_all add: occur_progressInterval)

lemma click_timer: "submit_click st = (st1, Some req) \<Longrightarrow> progressInterval st1 = Some (nextInterval st) \<and> intervals st1 (nextInterval st) = Some 0"
  by (auto simp: submit_click_def startProgress_def Let_def split: option.splits if_splits)

lemma fold_upd_other:
  "k \<notin> f ` set xs \<Longrightarrow> fold (\<lambda>x m. m(f x \<mapsto> g x)) xs m k = m k"
  by (induction xs arbitrary: m) auto

lemma fold_upd_distinct:
  "distinct (map f xs) \<Longrightarrow> x \<in> set xs \<Longrightarrow>
   fold (\<lambda>x m. m(f x \<mapsto> g x)) xs m (f x) = Some (g x)"
proof (induction xs arbitrary: m)
  case Nil
  then show ?case by simp
next
  case (Cons a xs)
  show ?case
  proof (cases "x \<in> set xs")
    case True
    with Cons show ?thesis by simp
  next
    case False
    with Cons.prems have xa: "x = a" and nin: "f a \<notin> f ` set xs" by auto
    have "fold (\<lambda>x m. m(f x \<mapsto> g x)) xs (m(f a \<mapsto> g a)) (f a) = (m(f a \<mapsto> g a)) (f a)"
      using nin by (rule fold_upd_other)
    also have "\<dots> = Some (g a)" by simp
    finally show ?thesis unfolding xa fold_simps .
  qed
qed

lemma gatherOptions_distinct:
  "distinct (map el_name els) \<Longrightarrow> el \<in> set els \<Longrightarrow>
   gatherOptions els (el_name el) = Some (optionValue el)"
  unfolding gatherOptions_def by (rule fold_upd_distinct)

declare bitLength.simps [simp del]

lemma toNumber_cases:
  "(\<exists>negative. toNumber neg a = JInfinity negative) \<or> (\<exists>n::int. toNumber neg a = JNum (of_int n))"
proof (cases "2 ^ 1024 \<le> roundToDouble a")
  case True
  then show ?thesis by (simp add: toNumber_def)
next
  case False
  have "real (roundToDouble a) = of_int (int (roundToDouble a))"
    "- real (roundToDouble a) = of_int (- int (roundToDouble a))" by simp_all
  with False show ?thesis unfolding toNumber_def Let_def by (metis (full_types))
qed

lemma parseInt_cases:
  "parseInt s = JNaN \<or> (\<exists>negative. parseInt s = JInfinity negative)
   \<or> (\<exists>n::int. parseInt s = JNum (of_int n))"
  unfolding parseInt_def using toNumber_cases by (auto split: prod.splits)

lemma parseInt_NaN_iff: "parseInt s = JNaN \<longleftrightarrow> snd (snd (signRadixDigits s)) = []"
proof -
  obtain negative radix z where p: "signRadixDigits s = (negative, radix, z)"
    by (cases "signRadixDigits s") auto
  have "toNumber negative (foldl (\<lambda>acc c. acc * radix + digitValue c) 0 z) \<noteq> JNaN"
    using toNumber_cases [of negative "foldl (\<lambda>acc c. acc * radix + digitValue c) 0 z"] by auto
  with p show ?thesis by (simp add: parseInt_def)
qed

section \<open>Claims about the artifact resolver\<close>

subsection \<open>C1: priority of the key pdf\<close>

text \<open>
  As stated, C1 lets the key \<^verbatim>\<open>pdf\<close> win wherever it sits. The resolver checks
  the three keys at a node before it descends, so an \<^verbatim>\<open>output_file\<close> at the top
  wins over a \<^verbatim>\<open>pdf\<close> one level down.
\<close>

theorem findOutputFile_nested_pdf_counterexample:
  "(lit ''pdf'', JStr (lit ''b.pdf'')) \<in> set (bindings (JObj [(lit ''output_file'', JStr (lit ''a.txt'')),
        (lit ''nested'', JObj [(lit ''pdf'', JStr (lit ''b.pdf''))])]))
   \<and> findOutputFile (JObj [(lit ''output_file'', JStr (lit ''a.txt'')),
        (lit ''nested'', JObj [(lit ''pdf'', JStr (lit ''b.pdf''))])]) = Inr (JStr (lit ''a.txt''))
   \<and> findOutputFile (JObj [(lit ''output_file'', JStr (lit ''a.txt'')),
        (lit ''nested'', JObj [(lit ''pdf'', JStr (lit ''b.pdf''))])]) \<noteq> Inr (JStr (lit ''b.pdf''))"
  by (simp add: findOutputFile.simps)

text \<open>
  C1 (amended): \<^verbatim>\<open>findOutputFile\<close> returns the value bound to \<^verbatim>\<open>pdf\<close> whenever
  that value counts as true and no artifact binding with a value that counts as
  true comes before it in the order of the search (at each mapping \<^verbatim>\<open>pdf\<close>,
  \<^verbatim>\<open>output_file\<close>, \<^verbatim>\<open>image_path\<close>, then the children in turn). In particular a
  truthy \<^verbatim>\<open>pdf\<close> of the mapping the search starts from is returned whatever
  \<^verbatim>\<open>output_file\<close> and \<^verbatim>\<open>image_path\<close> entries are in the same mapping or in any
  nested one, and a nested truthy \<^verbatim>\<open>pdf\<close> is returned when nothing truthy
  precedes it. When another artifact binding with a truthy value comes first in
  that order, its value is returned instead.
\<close>

theorem findOutputFile_pdf_priority:
  "(searchOrder v = pre @ (lit ''pdf'', p) # post \<and> truthy p
      \<and> list_all (\<lambda>kv. \<not> truthy (snd kv)) pre \<longrightarrow> findOutputFile v = Inr p)
   \<and> (map_of kvs (lit ''pdf'') = Some p \<and> truthy p \<longrightarrow> findOutputFile (JObj kvs) = Inr p)
   \<and> (searchOrder v = pre @ (k, x) # post \<and> truthy x
      \<and> list_all (\<lambda>kv. \<not> truthy (snd kv)) pre \<longrightarrow> findOutputFile v = Inr x)"
proof -
  have first: "searchOrder v = pre @ (k', y) # post \<and> truthy y
      \<and> list_all (\<lambda>kv. \<not> truthy (snd kv)) pre \<longrightarrow> findOutputFile v = Inr y" for k' y
    using findOutputFile_firstTruthy_aux(1) [of v] firstTruthy_first [of pre y k' post] by auto
  have root: "map_of kvs (lit ''pdf'') = Some p \<and> truthy p \<longrightarrow> findOutputFile (JObj kvs) = Inr p"
    by (simp add: findOutputFile.simps)
  from first [of "lit ''pdf''" p] root first [of k x] show ?thesis by blast
qed

theorem findOutputFile_pdf_priority_witness:
  "searchOrder (JObj [(lit ''output_file'', JStr []),
        (lit ''nested'', JObj [(lit ''image_path'', JStr (lit ''c.png'')),
                               (lit ''pdf'', JStr (lit ''b.pdf''))])])
     = [(lit ''output_file'', JStr [])] @ (lit ''pdf'', JStr (lit ''b.pdf''))
         # [(lit ''image_path'', JStr (lit ''c.png''))]
   \<and> truthy (JStr (lit ''b.pdf''))
   \<and> list_all (\<lambda>kv. \<not> truthy (snd kv)) [(lit ''output_file'', JStr [])]
   \<and> findOutputFile (JObj [(lit ''output_file'', JStr []),
        (lit ''nested'', JObj [(lit ''image_path'', JStr (lit ''c.png'')),
                               (lit ''pdf'', JStr (lit ''b.pdf''))])]) = Inr (JStr (lit ''b.pdf''))
   \<and> map_of [(lit ''output_file'', JStr (lit ''deck.pptx'')), (lit ''pdf'', JStr (lit ''quiz_123.pdf'')),
           (lit ''meta'', JObj [(lit ''image_path'', JStr (lit ''cover.png''))])] (lit ''pdf'')
     = Some (JStr (lit ''quiz_123.pdf''))
   \<and> truthy (JStr (lit ''quiz_123.pdf''))
   \<and> findOutputFile (JObj [(lit ''output_file'', JStr (lit ''deck.pptx'')),
           (lit ''pdf'', JStr (lit ''quiz_123.pdf'')),
           (lit ''meta'', JObj [(lit ''image_path'', JStr (lit ''cover.png''))])])
     = Inr (JStr (lit ''quiz_123.pdf''))"
proof -
  let ?v = "JObj [(lit ''output_file'', JStr []),
        (lit ''nested'', JObj [(lit ''image_path'', JStr (lit ''c.png'')),
                               (lit ''pdf'', JStr (lit ''b.pdf''))])]"
  let ?kvs = "[(lit ''output_file'', JStr (lit ''deck.pptx'')), (lit ''pdf'', JStr (lit ''quiz_123.pdf'')),
           (lit ''meta'', JObj [(lit ''image_path'', JStr (lit ''cover.png''))])]"
  have o: "searchOrder ?v = [(lit ''output_file'', JStr [])] @ (lit ''pdf'', JStr (lit ''b.pdf''))
         # [(lit ''image_path'', JStr (lit ''c.png''))]"
    by (simp add: ownArtifacts_def artifactKeys_def)
  have t: "truthy (JStr (lit ''b.pdf''))" by simp
  have f: "list_all (\<lambda>kv. \<not> truthy (snd kv)) [(lit ''output_file'', JStr [])]" by simp
  have h1: "map_of ?kvs (lit ''pdf'') = Some (JStr (lit ''quiz_123.pdf''))" by simp
  have h2: "truthy (JStr (lit ''quiz_123.pdf''))" by simp
  note nested = findOutputFile_pdf_priority [of ?v "[(lit ''output_file'', JStr [])]"
      "JStr (lit ''b.pdf'')" "[(lit ''image_path'', JStr (lit ''c.png''))]" "[]"
      "lit ''pdf''" "JStr (lit ''b.pdf'')"]
  note root = findOutputFile_pdf_priority [of ?v "[]" "JStr (lit ''quiz_123.pdf'')" "[]" ?kvs
      "lit ''pdf''" "JStr (lit ''quiz_123.pdf'')"]
  from nested o t f have a: "findOutputFile ?v = Inr (JStr (lit ''b.pdf''))" by blast
  from root h1 h2 have b: "findOutputFile (JObj ?kvs) = Inr (JStr (lit ''quiz_123.pdf''))" by blast
  from o t f a h1 h2 b show ?thesis by blast
qed

subsection \<open>C4: nothing to find\<close>

text \<open>
  C4: on a structure that has none of the keys \<^verbatim>\<open>pdf\<close>, \<^verbatim>\<open>output_file\<close>,
  \<^verbatim>\<open>image_path\<close> at any depth, and on every input that is neither a mapping nor a
  sequence (\<^verbatim>\<open>null\<close>, \<^verbatim>\<open>undefined\<close> and the scalars), \<^verbatim>\<open>findOutputFile\<close>
  returns \<^verbatim>\<open>null\<close>; it returns, so it does not throw.
\<close>

theorem findOutputFile_no_artifact:
  "fst ` set (bindings v) \<inter> set artifactKeys = {} \<or> \<not> isMappingOrSequence v
   \<Longrightarrow> findOutputFile v = Inr JNull"
proof (cases "isMappingOrSequence v")
  case True
  assume "fst ` set (bindings v) \<inter> set artifactKeys = {} \<or> \<not> isMappingOrSequence v"
  with True have "fst ` set (bindings v) \<inter> set artifactKeys = {}" by simp
  then show ?thesis by (rule no_artifact_aux(1))
next
  case False
  then have "\<not> truthy v \<or> typeof v \<noteq> lit ''object''" by (cases v) simp_all
  then show ?thesis by (auto simp: findOutputFile.simps)
qed

theorem findOutputFile_no_artifact_witness:
  "fst ` set (bindings (JObj [(lit ''questions'', JArr [JObj [(lit ''text'', JStr (lit ''Q1'')),
        (lit ''answer'', JNum 2)]]), (lit ''count'', JNum 1)])) \<inter> set artifactKeys = {}
   \<and> findOutputFile (JObj [(lit ''questions'', JArr [JObj [(lit ''text'', JStr (lit ''Q1'')),
        (lit ''answer'', JNum 2)]]), (lit ''count'', JNum 1)]) = Inr JNull
   \<and> \<not> isMappingOrSequence (JStr (lit ''report.pdf''))
   \<and> findOutputFile (JStr (lit ''report.pdf'')) = Inr JNull
   \<and> \<not> isMappingOrSequence JNull
   \<and> findOutputFile JNull = Inr JNull"
proof -
  have h1: "fst ` set (bindings (JObj [(lit ''questions'', JArr [JObj [(lit ''text'', JStr (lit ''Q1'')),
        (lit ''answer'', JNum 2)]]), (lit ''count'', JNum 1)])) \<inter> set artifactKeys = {}"
    by (simp add: artifactKeys_def)
  have h2: "\<not> isMappingOrSequence (JStr (lit ''report.pdf''))" by simp
  have h3: "\<not> isMappingOrSequence JNull" by simp
  from findOutputFile_no_artifact [OF disjI1, OF h1]
       findOutputFile_no_artifact [OF disjI2, OF h2]
       findOutputFile_no_artifact [OF disjI2, OF h3] h1 h2 h3
  show ?thesis by blast
qed

subsection \<open>C9: termination\<close>

text \<open>
  C9: \<^verbatim>\<open>findOutputFile\<close> terminates on every finite tree of mappings and
  sequences. Its recursive calls go to the values stored in the node, so a stack
  budget of one frame more than the size of the tree is never used up, and the
  call returns a value.
\<close>

theorem findOutputFile_terminates:
  "findOutputFile_fuel (Suc (size v)) v = Some (findOutputFile v)
   \<and> (\<exists>r. findOutputFile v = Inr r)"
  using fuel_aux(1) [of v] findOutputFile_total_aux(1) [of v] by blast

theorem findOutputFile_terminates_witness:
  "findOutputFile_fuel
     (Suc (size (JObj [(lit ''a'', JArr [JObj [(lit ''b'', JObj [(lit ''image_path'', JStr (lit ''deep.png''))])]])])))
     (JObj [(lit ''a'', JArr [JObj [(lit ''b'', JObj [(lit ''image_path'', JStr (lit ''deep.png''))])]])])
   = Some (Inr (JStr (lit ''deep.png'')))"
  using findOutputFile_terminates
    [of "JObj [(lit ''a'', JArr [JObj [(lit ''b'', JObj [(lit ''image_path'', JStr (lit ''deep.png''))])]])]"]
  by (simp add: findOutputFile.simps)

subsection \<open>C10: artifact keys with values that count as false\<close>

text \<open>
  C10: an artifact key whose value counts as false (empty string, 0, \<^verbatim>\<open>null\<close>,
  \<^verbatim>\<open>false\<close>) is treated as absent, and the search goes on to the remaining keys
  and children: \<^verbatim>\<open>findOutputFile\<close> returns the value of the first artifact
  binding, in the order of the search, whose value counts as true, and \<^verbatim>\<open>null\<close>
  when there is none. So a result other than \<^verbatim>\<open>null\<close> counts as true and is a
  value that a mapping of the structure binds to an artifact key. On a structure
  whose mappings hold each key once, the result is \<^verbatim>\<open>null\<close> only when no artifact
  key at any depth is bound to a value that counts as true, and erasing every
  falsy artifact binding from the structure leaves the answer as it was (the
  returned value being read with the same bindings erased inside it).
\<close>

theorem findOutputFile_falsy_artifact_absent:
  "findOutputFile v = Inr (firstTruthy (searchOrder v))
   \<and> (firstTruthy (searchOrder v) = JNull \<or> truthy (firstTruthy (searchOrder v)))
   \<and> (findOutputFile v = Inr r \<and> r \<noteq> JNull \<longrightarrow>
        truthy r \<and> (\<exists>k\<in>set artifactKeys. (k, r) \<in> set (bindings v)))
   \<and> (distinctKeys v \<longrightarrow>
        (findOutputFile v = Inr JNull \<longleftrightarrow>
           \<not> (\<exists>kv\<in>set (bindings v). fst kv \<in> set artifactKeys \<and> truthy (snd kv)))
        \<and> findOutputFile (dropFalsyArtifacts v)
            = Inr (dropFalsyArtifacts (firstTruthy (searchOrder v))))"
proof -
  let ?r = "firstTruthy (searchOrder v)"
  have eq: "findOutputFile v = Inr ?r" by (rule findOutputFile_firstTruthy_aux(1))
  have nt: "?r = JNull \<or> truthy ?r" by (rule firstTruthy_null_or_truthy)
  have bound: "findOutputFile v = Inr r \<and> r \<noteq> JNull \<longrightarrow>
        truthy r \<and> (\<exists>k\<in>set artifactKeys. (k, r) \<in> set (bindings v))"
  proof
    assume a: "findOutputFile v = Inr r \<and> r \<noteq> JNull"
    with eq have r: "r = ?r" "?r \<noteq> JNull" by simp_all
    with nt have "truthy r" by simp
    moreover from r(2) obtain kv where kv: "kv \<in> set (searchOrder v)" "snd kv = ?r"
      using firstTruthy_mem by blast
    from kv(1) have m: "kv \<in> set (bindings v)" "fst kv \<in> set artifactKeys"
      using searchOrder_subset_aux(1) [of v] by auto
    from kv(2) r(1) have "kv = (fst kv, r)" by (metis prod.collapse)
    with m have "fst kv \<in> set artifactKeys \<and> (fst kv, r) \<in> set (bindings v)" by metis
    ultimately show "truthy r \<and> (\<exists>k\<in>set artifactKeys. (k, r) \<in> set (bindings v))" by blast
  qed
  have dk: "distinctKeys v \<longrightarrow>
        (findOutputFile v = Inr JNull \<longleftrightarrow>
           \<not> (\<exists>kv\<in>set (bindings v). fst kv \<in> set artifactKeys \<and> truthy (snd kv)))
        \<and> findOutputFile (dropFalsyArtifacts v) = Inr (dropFalsyArtifacts ?r)"
  proof
    assume d: "distinctKeys v"
    have s: "set (searchOrder v) = {kv \<in> set (bindings v). fst kv \<in> set artifactKeys}"
      using searchOrder_subset_aux(1) [of v] searchOrder_complete_aux(1) [OF d] by blast
    have "findOutputFile v = Inr JNull \<longleftrightarrow> \<not> truthy ?r"
      using eq nt by auto
    also have "\<dots> \<longleftrightarrow> \<not> (\<exists>kv\<in>set (searchOrder v). truthy (snd kv))"
      by (simp add: truthy_firstTruthy)
    also have "\<dots> \<longleftrightarrow> \<not> (\<exists>kv\<in>set (bindings v). fst kv \<in> set artifactKeys \<and> truthy (snd kv))"
      unfolding s by blast
    finally have n: "findOutputFile v = Inr JNull \<longleftrightarrow>
           \<not> (\<exists>kv\<in>set (bindings v). fst kv \<in> set artifactKeys \<and> truthy (snd kv))" .
    from drop_aux(1) [OF d eq] n
    show "(findOutputFile v = Inr JNull \<longleftrightarrow>
           \<not> (\<exists>kv\<in>set (bindings v). fst kv \<in> set artifactKeys \<and> truthy (snd kv)))
        \<and> findOutputFile (dropFalsyArtifacts v) = Inr (dropFalsyArtifacts ?r)" by blast
  qed
  from eq nt bound dk show ?thesis by blast
qed

theorem findOutputFile_falsy_artifact_absent_witness:
  "distinctKeys (JObj [(lit ''pdf'', JStr []), (lit ''output_file'', JNum 0), (lit ''image_path'', JNull),
        (lit ''nested'', JObj [(lit ''pdf'', JBool False), (lit ''image_path'', JStr (lit ''img.png''))])])
   \<and> firstTruthy (searchOrder (JObj [(lit ''pdf'', JStr []), (lit ''output_file'', JNum 0),
        (lit ''image_path'', JNull),
        (lit ''nested'', JObj [(lit ''pdf'', JBool False), (lit ''image_path'', JStr (lit ''img.png''))])]))
       = JStr (lit ''img.png'')
   \<and> findOutputFile (JObj [(lit ''pdf'', JStr []), (lit ''output_file'', JNum 0), (lit ''image_path'', JNull),
        (lit ''nested'', JObj [(lit ''pdf'', JBool False), (lit ''image_path'', JStr (lit ''img.png''))])])
       = Inr (JStr (lit ''img.png''))
   \<and> findOutputFile (dropFalsyArtifacts (JObj [(lit ''pdf'', JStr []), (lit ''output_file'', JNum 0),
        (lit ''image_path'', JNull),
        (lit ''nested'', JObj [(lit ''pdf'', JBool False), (lit ''image_path'', JStr (lit ''img.png''))])]))
       = Inr (JStr (lit ''img.png''))"
proof -
  let ?v = "JObj [(lit ''pdf'', JStr []), (lit ''output_file'', JNum 0), (lit ''image_path'', JNull),
        (lit ''nested'', JObj [(lit ''pdf'', JBool False), (lit ''image_path'', JStr (lit ''img.png''))])]"
  have h: "distinctKeys ?v" by simp
  have e: "firstTruthy (searchOrder ?v) = JStr (lit ''img.png'')"
    by (simp add: ownArtifacts_def artifactKeys_def firstTruthy_def)
  from findOutputFile_falsy_artifact_absent [of ?v "JStr (lit ''img.png'')"] h e
  have "findOutputFile ?v = Inr (JStr (lit ''img.png''))"
    "findOutputFile (dropFalsyArtifacts ?v) = Inr (dropFalsyArtifacts (JStr (lit ''img.png'')))"
    by simp_all
  with h e show ?thesis by simp
qed

section \<open>Claims about the download link\<close>

text \<open>
  C8: when the artifact found in a result is a path string, the download link is
  made from the last segment of the path alone, cut at slashes and backslashes:
  the name in \<^verbatim>\<open>/files/<name>\<close> has no separator in it, and what precedes it in
  the path is empty or ends with a separator.
\<close>

theorem renderResult_download_name:
  assumes "findOutputFile result = Inr (JStr path)"
  shows "snd (renderResult ident result st) = None
    \<and> downloadBtn (fst (renderResult ident result st))
        = \<lparr>href = lit ''/files/'' @ fileName path, download = fileName path,
           btn_display = lit ''inline-flex''\<rparr>
    \<and> (\<forall>c\<in>set (fileName path). \<not> isSeparator c)
    \<and> (\<exists>dir. path = dir @ fileName path \<and> (dir = [] \<or> isSeparator (last dir)))"
proof -
  have container: "truthy result \<and> typeof result = lit ''object''"
  proof (rule ccontr)
    assume "\<not> (truthy result \<and> typeof result = lit ''object'')"
    then have "findOutputFile result = Inr JNull" by (auto simp: findOutputFile.simps)
    with assms show False by simp
  qed
  then obtain pdf where pdf: "getProp result (lit ''pdf'') = Inr pdf"
    using getProp_container by blast
  from assms findOutputFile_total_aux(1) [of result] have tr: "truthy (JStr path)" by auto
  from pdf assms tr have
    "snd (renderResult ident result st) = None"
    "downloadBtn (fst (renderResult ident result st))
        = \<lparr>href = lit ''/files/'' @ fileName path, download = fileName path,
           btn_display = lit ''inline-flex''\<rparr>"
    by (simp_all add: renderResult_def Let_def)
  moreover have "\<forall>c\<in>set (fileName path). \<not> isSeparator c"
    by (simp add: fileName_last last_split_no_separator)
  moreover have "\<exists>dir. path = dir @ fileName path \<and> (dir = [] \<or> isSeparator (last dir))"
    unfolding fileName_last by (rule last_split_suffix)
  ultimately show ?thesis by blast
qed

theorem renderResult_download_name_witness:
  "findOutputFile (JObj [(lit ''questions'', JArr []), (lit ''pdf'', JStr (lit ''/srv/app/output/quiz_123.pdf''))])
     = Inr (JStr (lit ''/srv/app/output/quiz_123.pdf''))
   \<and> downloadBtn (fst (renderResult (lit ''quiz_gen'')
        (JObj [(lit ''questions'', JArr []), (lit ''pdf'', JStr (lit ''/srv/app/output/quiz_123.pdf''))])
        example_page))
     = \<lparr>href = lit ''/files/quiz_123.pdf'', download = lit ''quiz_123.pdf'',
        btn_display = lit ''inline-flex''\<rparr>"
proof -
  have h: "findOutputFile (JObj [(lit ''questions'', JArr []),
        (lit ''pdf'', JStr (lit ''/srv/app/output/quiz_123.pdf''))])
     = Inr (JStr (lit ''/srv/app/output/quiz_123.pdf''))"
    by (simp add: findOutputFile.simps)
  have n: "fileName (lit ''/srv/app/output/quiz_123.pdf'') = lit ''quiz_123.pdf''"
    by (simp add: fileName_def pop_def isSeparator_def lit_def)
  have a: "lit ''/files/'' @ lit ''quiz_123.pdf'' = lit ''/files/quiz_123.pdf''"
    by (simp add: lit_def)
  from renderResult_download_name [OF h, of "lit ''quiz_gen''" example_page] h n a
  show ?thesis by simp
qed

section \<open>Claims about the progress simulator\<close>

text \<open>
  C6: while a submission is running, the progress shown after a tick is at most
  90 per cent and so never 100: this holds after the callback of any registered
  timer has run, and at every moment after \<^verbatim>\<open>startProgress\<close> through any
  sequence of ticks, closings of the modal and close timeouts, and of the other
  page events short of the end of a call (agents loading, an agent being opened,
  edits of the form, further clicks on the submit button).
\<close>

theorem progress_capped_at_90:
  "(intervals st t \<noteq> None \<longrightarrow> barWidth (tick t random st) \<le> 90
        \<and> barWidth (tick t random st) < 100)
   \<and> barWidth (run evs (startProgress st)) \<le> 90
   \<and> barWidth (run evs (startProgress st)) < 100"
proof -
  have "barWidth (startProgress st) \<le> 90" by (simp add: startProgress_def)
  then have "barWidth (run evs (startProgress st)) \<le> 90" by (rule run_bar_le)
  moreover have "intervals st t \<noteq> None \<longrightarrow> barWidth (tick t random st) \<le> 90"
    using tick_bar by blast
  ultimately show ?thesis by force
qed

theorem progress_capped_at_90_witness:
  "intervals (example_page\<lparr>intervals := [1 \<mapsto> 88]\<rparr>) 1 \<noteq> None
   \<and> barWidth (tick 1 (9 / 10) (example_page\<lparr>intervals := [1 \<mapsto> 88]\<rparr>)) \<le> 90
   \<and> barWidth (run [Tick 1 (1 / 2), CloseAgent, Tick 1 (3 / 4)]
        (startProgress (example_page\<lparr>intervals := [1 \<mapsto> 88]\<rparr>))) < 100"
proof -
  have h: "intervals (example_page\<lparr>intervals := [1 \<mapsto> 88]\<rparr>) 1 \<noteq> None" by simp
  from progress_capped_at_90 [of "example_page\<lparr>intervals := [1 \<mapsto> 88]\<rparr>" 1 "9 / 10"
      "[Tick 1 (1 / 2), CloseAgent, Tick 1 (3 / 4)]"] h
  show ?thesis by blast
qed

text \<open>
  C7: when the call ends, whether \<^verbatim>\<open>data.success\<close> is true or not and also when
  \<^verbatim>\<open>fetch\<close> or \<^verbatim>\<open>res.json()\<close> throws, the handler leaves the bar at 100 per cent,
  the detail line at \<^verbatim>\<open>Complete\<close> and the submit button enabled with its original
  content.
\<close>

theorem settle_completes:
  "barWidth (submit_settle resp st) = 100
   \<and> progressDetail (submit_settle resp st) = lit ''Complete''
   \<and> \<not> submitDisabled (submit_settle resp st)
   \<and> submitHtml (submit_settle resp st) = ExecuteAgent"
  by (simp add: submit_settle_def stopProgress_def clearInterval_def Let_def
           split: prod.splits option.splits)

theorem settle_completes_witness:
  "barWidth (submit_settle (Rejected (FetchError (lit ''Failed to fetch'')))
       (fst (submit_click example_page))) = 100
   \<and> progressDetail (submit_settle (Resolved (JObj [(lit ''success'', JBool False),
       (lit ''detail'', JStr (lit ''Unknown agent''))])) (fst (submit_click example_page))) = lit ''Complete''
   \<and> \<not> submitDisabled (submit_settle (Resolved (JObj [(lit ''success'', JBool True),
       (lit ''result'', JObj [(lit ''pdf'', JStr (lit ''quiz_123.pdf''))])])) (fst (submit_click example_page)))"
  using settle_completes [of "Rejected (FetchError (lit ''Failed to fetch''))"
          "fst (submit_click example_page)"]
        settle_completes [of "Resolved (JObj [(lit ''success'', JBool False),
          (lit ''detail'', JStr (lit ''Unknown agent''))])" "fst (submit_click example_page)"]
        settle_completes [of "Resolved (JObj [(lit ''success'', JBool True),
          (lit ''result'', JObj [(lit ''pdf'', JStr (lit ''quiz_123.pdf''))])])" "fst (submit_click example_page)"]
  by blast

text \<open>
  As stated, C2 has \<^verbatim>\<open>closeAgent\<close> clear the timer. It does not: after a
  submission, closing the modal and letting its timeout run leaves the timer
  registered, and its next tick still moves the bar.
\<close>

theorem closeAgent_keeps_timer_counterexample:
  "snd (submit_click example_page) \<noteq> None
   \<and> progressInterval (run [CloseAgent, CloseTimeout] (fst (submit_click example_page))) = Some 1
   \<and> intervals (run [CloseAgent, CloseTimeout] (fst (submit_click example_page))) 1 = Some 0
   \<and> intervals (run [CloseAgent, CloseTimeout, Tick 1 (1 / 2)] (fst (submit_click example_page))) 1
       = Some 5"
  by (simp add: submit_click_def example_page_def trim_def isWhiteSpace_def lit_def startProgress_def
        run_def closeAgent_def closeAgent_timeout_def tick_def Let_def)

text \<open>
  C2 (amended): a submission creates one timer and stores its handle in
  \<^verbatim>\<open>state.progressInterval\<close>. When a call ends, with success, with failure or
  with a thrown error, the timer whose handle is stored there is cleared, and no
  other timer is. That is the submission's own timer when no further submission
  was made between it and the end of its call, whatever ticks, closings and
  openings of the modal, edits of the form and ends of earlier calls came in
  between. \<^verbatim>\<open>closeAgent\<close> leaves the timers as they are; a timer whose \<^verbatim>\<open>width\<close>
  has reached 90 clears itself at its next tick.
\<close>

theorem timer_cleared_when_call_ends:
  "(submit_click st = (st1, Some req) \<longrightarrow>
      progressInterval st1 = Some (nextInterval st) \<and> intervals st1 (nextInterval st) = Some 0)
   \<and> (progressInterval s = Some t \<longrightarrow>
        intervals (submit_settle resp s) t = None
        \<and> (t' \<noteq> t \<longrightarrow> intervals (submit_settle resp s) t' = intervals s t'))
   \<and> (submit_click st = (st1, Some req) \<and> \<not> list_ex isSubmit occs \<longrightarrow>
        intervals (submit_settle resp (history occs st1)) (nextInterval st) = None)
   \<and> intervals (closeAgent s) = intervals s
   \<and> (intervals s t = Some w \<and> 90 \<le> w \<longrightarrow> intervals (tick t random s) t = None)"
proof -
  have created: "submit_click st = (st1, Some req) \<longrightarrow>
      progressInterval st1 = Some (nextInterval st) \<and> intervals st1 (nextInterval st) = Some 0"
    using click_timer by blast
  have stored: "progressInterval s = Some t \<longrightarrow>
        intervals (submit_settle resp s) t = None
        \<and> (t' \<noteq> t \<longrightarrow> intervals (submit_settle resp s) t' = intervals s t')"
    using settle_clears settle_keeps_others by blast
  have own: "submit_click st = (st1, Some req) \<and> \<not> list_ex isSubmit occs \<longrightarrow>
        intervals (submit_settle resp (history occs st1)) (nextInterval st) = None"
  proof
    assume a: "submit_click st = (st1, Some req) \<and> \<not> list_ex isSubmit occs"
    with created have "progressInterval (history occs st1) = Some (nextInterval st)"
      by (simp add: history_progressInterval)
    then show "intervals (submit_settle resp (history occs st1)) (nextInterval st) = None"
      by (rule settle_clears)
  qed
  have close: "intervals (closeAgent s) = intervals s" by (simp add: closeAgent_def)
  have self: "intervals s t = Some w \<and> 90 \<le> w \<longrightarrow> intervals (tick t random s) t = None"
    by (simp add: tick_def Let_def)
  from created stored own close self show ?thesis by blast
qed

text \<open>
  The witness takes the example page through two runs. In the first, the call
  ends after ticks, a closing of the modal, its timeout and a reopening: timer 1
  is cleared. In the second, the modal is closed, the quiz agent opened, a topic
  typed and a second submission made while the first call is pending; the end of
  the first call then clears timer 2, the one stored, and timer 1 stays.
\<close>

theorem timer_cleared_when_call_ends_witness:
  "snd (submit_click example_page) \<noteq> None
   \<and> nextInterval example_page = 1
   \<and> \<not> list_ex isSubmit [Page (Tick 1 (1 / 2)), Page CloseAgent, Page CloseTimeout,
          Page (OpenAgent (lit ''quiz_gen'')), Page (Tick 1 (1 / 4))]
   \<and> intervals (submit_settle (Rejected (FetchError (lit ''Failed to fetch'')))
        (history [Page (Tick 1 (1 / 2)), Page CloseAgent, Page CloseTimeout,
                  Page (OpenAgent (lit ''quiz_gen'')), Page (Tick 1 (1 / 4))]
           (fst (submit_click example_page)))) 1 = None
   \<and> progressInterval (history [Page CloseAgent, Page CloseTimeout,
          Page (OpenAgent (lit ''quiz_gen'')), Page (TypeTopic (lit ''Sets'')), Page Submit]
           (fst (submit_click example_page))) = Some 2
   \<and> intervals (submit_settle (Rejected (FetchError (lit ''Failed to fetch'')))
        (history [Page CloseAgent, Page CloseTimeout,
          Page (OpenAgent (lit ''quiz_gen'')), Page (TypeTopic (lit ''Sets'')), Page Submit]
           (fst (submit_click example_page)))) 2 = None
   \<and> intervals (submit_settle (Rejected (FetchError (lit ''Failed to fetch'')))
        (history [Page CloseAgent, Page CloseTimeout,
          Page (OpenAgent (lit ''quiz_gen'')), Page (TypeTopic (lit ''Sets'')), Page Submit]
           (fst (submit_click example_page)))) 1 = Some 0"
proof -
  let ?resp = "Rejected (FetchError (lit ''Failed to fetch''))"
  let ?first = "[Page (Tick 1 (1 / 2)), Page CloseAgent, Page CloseTimeout,
                 Page (OpenAgent (lit ''quiz_gen'')), Page (Tick 1 (1 / 4))]"
  let ?second = "[Page CloseAgent, Page CloseTimeout,
          Page (OpenAgent (lit ''quiz_gen'')), Page (TypeTopic (lit ''Sets'')), Page Submit]"
  obtain st1 req where h: "submit_click example_page = (st1, Some req)"
    by (simp add: submit_click_def example_page_def trim_def isWhiteSpace_def lit_def Let_def)
  have n: "nextInterval example_page = 1" by (simp add: example_page_def)
  have f: "\<not> list_ex isSubmit ?first" by simp
  have st1: "st1 = fst (submit_click example_page)" using h by simp
  have p: "progressInterval (history ?second st1) = Some 2"
    unfolding st1
    by (simp add: history_def submit_click_def example_page_def trim_def isWhiteSpace_def lit_def
          startProgress_def closeAgent_def closeAgent_timeout_def openAgent_def
          objectPrototypeKeys_def Let_def)
  have k: "intervals (history ?second st1) 1 = Some 0"
    unfolding st1
    by (simp add: history_def submit_click_def example_page_def trim_def isWhiteSpace_def lit_def
          startProgress_def closeAgent_def closeAgent_timeout_def openAgent_def
          objectPrototypeKeys_def Let_def)
  have d: "(1::nat) \<noteq> 2" by simp
  note inst = timer_cleared_when_call_ends [of example_page st1 req "history ?second st1" 2
      ?resp 1 ?first 0 0]
  from inst h f have own: "intervals (submit_settle ?resp (history ?first st1)) 1 = None"
    using n by simp
  from inst p d k have latest: "intervals (submit_settle ?resp (history ?second st1)) 2 = None"
    and other: "intervals (submit_settle ?resp (history ?second st1)) 1 = Some 0"
    by simp_all
  from h have "snd (submit_click example_page) \<noteq> None" by simp
  with n f own p latest other show ?thesis unfolding st1 by blast
qed

section \<open>Claims about the submit handler\<close>

text \<open>
  C5: when the topic field is empty after trimming, that is when it is empty or
  holds white space only, the handler calls neither \<^verbatim>\<open>fetch\<close> nor anything else
  that starts a run: no request is posted, and the page is left as it was except
  for the focus, which goes to the topic field.
\<close>

theorem empty_topic_no_request:
  "list_all isWhiteSpace (inputValue st) \<Longrightarrow>
   snd (submit_click st) = None
   \<and> fst (submit_click st) = (if currentAgent st = None then st else st\<lparr>inputFocused := True\<rparr>)"
proof -
  assume "list_all isWhiteSpace (inputValue st)"
  then have "trim (inputValue st) = []" by (simp add: trim_empty_iff list_all_iff)
  then show ?thesis by (simp add: submit_click_def Let_def split: option.splits)
qed

theorem empty_topic_no_request_witness:
  "list_all isWhiteSpace [0x20, 0x09, 0x3000]
   \<and> snd (submit_click (example_page\<lparr>inputValue := [0x20, 0x09, 0x3000]\<rparr>)) = None
   \<and> intervals (fst (submit_click (example_page\<lparr>inputValue := [0x20, 0x09, 0x3000]\<rparr>)))
       = Map.empty"
proof -
  have h: "list_all isWhiteSpace
      (inputValue (example_page\<lparr>inputValue := [0x20, 0x09, 0x3000]\<rparr>))"
    by (simp add: isWhiteSpace_def)
  from empty_topic_no_request [OF h] h show ?thesis
    by (simp add: example_page_def)
qed

text \<open>
  As stated, C3 makes the request fail when a number field cannot be read as an
  integer. The handler has no such check: with the number field emptied,
  \<^verbatim>\<open>parseInt\<close> gives \<^verbatim>\<open>NaN\<close> and the request is posted with that value.
\<close>

theorem number_option_NaN_counterexample:
  "snd (submit_click example_page) \<noteq> None
   \<and> agent (the (snd (submit_click example_page))) = lit ''presentation_gen''
   \<and> options (the (snd (submit_click example_page))) (lit ''num_slides'') = Some JNaN"
  by (simp add: submit_click_def example_page_def trim_def isWhiteSpace_def lit_def Let_def
        gatherOptions_def optionValue_def parseInt_def signRadixDigits_def)

text \<open>
  C3 (amended): for a form whose fields have different names, each field of type
  \<^verbatim>\<open>number\<close> is passed through \<^verbatim>\<open>parseInt\<close> before it is placed in the options
  map of the request, and every other field is placed as its text. \<^verbatim>\<open>parseInt\<close>
  gives \<^verbatim>\<open>NaN\<close> exactly when no digit follows the optional white space, sign and
  radix prefix, and otherwise an integer-valued number or an infinity; the request
  is posted in every case.
\<close>

theorem number_options_through_parseInt:
  assumes "currentAgent st \<noteq> None" and "trim (inputValue st) \<noteq> []"
    and "distinct (map el_name (formEls st))" and "el \<in> set (formEls st)"
  shows "\<exists>req. snd (submit_click st) = Some req
    \<and> options req (el_name el)
        = Some (if el_type el = lit ''number'' then parseInt (el_value el) else JStr (el_value el))
    \<and> (parseInt (el_value el) = JNaN \<longleftrightarrow> snd (snd (signRadixDigits (el_value el))) = [])
    \<and> (parseInt (el_value el) = JNaN
        \<or> (\<exists>negative. parseInt (el_value el) = JInfinity negative)
        \<or> (\<exists>n::int. parseInt (el_value el) = JNum (of_int n)))"
proof -
  from assms(1) obtain a where a: "currentAgent st = Some a" by auto
  have "gatherOptions (formEls st) (el_name el) = Some (optionValue el)"
    using assms(3,4) by (rule gatherOptions_distinct)
  with a assms(2) have "\<exists>req. snd (submit_click st) = Some req
    \<and> options req (el_name el)
        = Some (if el_type el = lit ''number'' then parseInt (el_value el) else JStr (el_value el))"
    by (simp add: submit_click_def Let_def optionValue_def)
  with parseInt_cases [of "el_value el"] parseInt_NaN_iff [of "el_value el"]
  show ?thesis by blast
qed

theorem number_options_through_parseInt_witness:
  "currentAgent (example_page\<lparr>formEls := [\<lparr>el_name = lit ''num_slides'', el_type = lit ''number'',
        el_value = lit ''12''\<rparr>]\<rparr>) \<noteq> None
   \<and> trim (inputValue (example_page\<lparr>formEls := [\<lparr>el_name = lit ''num_slides'', el_type = lit ''number'',
        el_value = lit ''12''\<rparr>]\<rparr>)) \<noteq> []
   \<and> options (the (snd (submit_click (example_page\<lparr>formEls := [\<lparr>el_name = lit ''num_slides'',
        el_type = lit ''number'', el_value = lit ''12''\<rparr>]\<rparr>)))) (lit ''num_slides'') = Some (JNum 12)"
proof -
  let ?el = "\<lparr>el_name = lit ''num_slides'', el_type = lit ''number'', el_value = lit ''12''\<rparr>"
  let ?st = "example_page\<lparr>formEls := [?el]\<rparr>"
  have h1: "currentAgent ?st \<noteq> None" by (simp add: example_page_def)
  have h2: "trim (inputValue ?st) \<noteq> []"
    by (simp add: example_page_def trim_def isWhiteSpace_def lit_def)
  have h3: "distinct (map el_name (formEls ?st))" by simp
  have h4: "?el \<in> set (formEls ?st)" by simp
  have p: "parseInt (lit ''12'') = JNum 12"
    by (simp add: parseInt_def signRadixDigits_def Let_def isWhiteSpace_def digitValue_def
          lit_def toNumber_def roundToDouble_def bitLength.simps)
  from number_options_through_parseInt [OF h1 h2 h3 h4] p
  have "options (the (snd (submit_click ?st))) (lit ''num_slides'') = Some (JNum 12)" by auto
  with h1 h2 show ?thesis by simp
qed

end
